theory Spec2Isabelle
  imports Complex_Main
begin

section \<open>Characters and strings\<close>

text \<open>
  JavaScript strings are modelled as lists of code units of the ASCII range.  The character
  classes of the regular expressions (\<^verbatim>\<open>\w\<close>, \<^verbatim>\<open>\s\<close>, \<^verbatim>\<open>\d\<close>, \<^verbatim>\<open>.\<close>)
  and the case mappings are those of ASCII; a code unit above 127 is a character that is neither
  a word character nor white space and has no other case.  JavaScript has more white space
  (U+00A0 among others) and more pairs of cases above 127, which are not modelled: the
  statements below are about texts of the ASCII range.
\<close>

definition is_upper :: "char \<Rightarrow> bool" where
  "is_upper c = (let n = (of_char c :: nat) in 65 \<le> n \<and> n \<le> 90)"

definition is_lower :: "char \<Rightarrow> bool" where
  "is_lower c = (let n = (of_char c :: nat) in 97 \<le> n \<and> n \<le> 122)"

definition is_digit :: "char \<Rightarrow> bool" where
  "is_digit c = (let n = (of_char c :: nat) in 48 \<le> n \<and> n \<le> 57)"

definition is_word :: "char \<Rightarrow> bool" where
  "is_word c = (is_upper c \<or> is_lower c \<or> is_digit c \<or> c = CHR ''_'')"

definition is_space :: "char \<Rightarrow> bool" where
  "is_space c = (let n = (of_char c :: nat) in (9 \<le> n \<and> n \<le> 13) \<or> n = 32)"

definition is_line_terminator :: "char \<Rightarrow> bool" where
  "is_line_terminator c = (c = CHR 0x0A \<or> c = CHR 0x0D)"

definition lower_char :: "char \<Rightarrow> char" where
  "lower_char c = (if is_upper c then char_of ((of_char c :: nat) + 32) else c)"

definition upper_char :: "char \<Rightarrow> char" where
  "upper_char c = (if is_lower c then char_of ((of_char c :: nat) - 32) else c)"

text \<open>The same classes, read off the bits of the code unit, for evaluation.\<close>

lemma is_upper_code [code]:
  "is_upper (Char b0 b1 b2 b3 b4 b5 b6 b7) =
     (\<not> b7 \<and> b6 \<and> \<not> b5 \<and> (b0 \<or> b1 \<or> b2 \<or> b3 \<or> b4) \<and> \<not> (b4 \<and> b3 \<and> (b2 \<or> (b1 \<and> b0))))"
  by (cases b0; cases b1; cases b2; cases b3; cases b4; cases b5; cases b6; cases b7;
      simp add: is_upper_def)

lemma is_lower_code [code]:
  "is_lower (Char b0 b1 b2 b3 b4 b5 b6 b7) =
     (\<not> b7 \<and> b6 \<and> b5 \<and> (b0 \<or> b1 \<or> b2 \<or> b3 \<or> b4) \<and> \<not> (b4 \<and> b3 \<and> (b2 \<or> (b1 \<and> b0))))"
  by (cases b0; cases b1; cases b2; cases b3; cases b4; cases b5; cases b6; cases b7;
      simp add: is_lower_def)

lemma is_digit_code [code]:
  "is_digit (Char b0 b1 b2 b3 b4 b5 b6 b7) =
     (\<not> b7 \<and> \<not> b6 \<and> b5 \<and> b4 \<and> (b3 \<longrightarrow> \<not> b2 \<and> \<not> b1))"
  by (cases b0; cases b1; cases b2; cases b3; cases b4; cases b5; cases b6; cases b7;
      simp add: is_digit_def)

lemma is_space_code [code]:
  "is_space (Char b0 b1 b2 b3 b4 b5 b6 b7) =
     (\<not> b7 \<and> \<not> b6 \<and> \<not> b4 \<and>
      (if b5 then \<not> b3 \<and> \<not> b2 \<and> \<not> b1 \<and> \<not> b0
       else b3 \<and> (if b2 then \<not> b1 else b1 \<or> b0)))"
  by (cases b0; cases b1; cases b2; cases b3; cases b4; cases b5; cases b6; cases b7;
      simp add: is_space_def)

lemma lower_char_code [code]:
  "lower_char (Char b0 b1 b2 b3 b4 b5 b6 b7) =
     (if is_upper (Char b0 b1 b2 b3 b4 b5 b6 b7) then Char b0 b1 b2 b3 b4 True b6 b7
      else Char b0 b1 b2 b3 b4 b5 b6 b7)"
  by (cases b0; cases b1; cases b2; cases b3; cases b4; cases b5; cases b6; cases b7;
      simp add: lower_char_def is_upper_def char_of_def bit_0)

lemma upper_char_code [code]:
  "upper_char (Char b0 b1 b2 b3 b4 b5 b6 b7) =
     (if is_lower (Char b0 b1 b2 b3 b4 b5 b6 b7) then Char b0 b1 b2 b3 b4 False b6 b7
      else Char b0 b1 b2 b3 b4 b5 b6 b7)"
  by (cases b0; cases b1; cases b2; cases b3; cases b4; cases b5; cases b6; cases b7;
      simp add: upper_char_def is_lower_def char_of_def bit_0)

definition toLowerCase :: "string \<Rightarrow> string" where
  "toLowerCase s = map lower_char s"

definition trim :: "string \<Rightarrow> string" where
  "trim s = rev (dropWhile is_space (rev (dropWhile is_space s)))"

fun join :: "string \<Rightarrow> string list \<Rightarrow> string" where
  "join sep [] = []"
| "join sep [x] = x"
| "join sep (x # y # ys) = x @ sep @ join sep (y # ys)"

fun is_prefix :: "string \<Rightarrow> string \<Rightarrow> bool" where
  "is_prefix [] s = True"
| "is_prefix (c # w) [] = False"
| "is_prefix (c # w) (x # xs) = (c = x \<and> is_prefix w xs)"

fun includes_str :: "string \<Rightarrow> string \<Rightarrow> bool" where
  "includes_str [] w = (w = [])"
| "includes_str (x # xs) w = (is_prefix w (x # xs) \<or> includes_str xs w)"

definition endsWith :: "string \<Rightarrow> string \<Rightarrow> bool" where
  "endsWith s w = is_prefix (rev w) (rev s)"


section \<open>Regular expressions\<close>

text \<open>
  The regular expressions of the sources are written in the syntax below and run by a
  backtracking matcher in continuation-passing style, which tries the alternatives in the
  order of the ECMAScript specification: the left branch of \<^verbatim>\<open>|\<close> first, the longest
  repetition first for a greedy quantifier and the shortest first for a lazy one.  Every
  quantified expression of the sources is a single character class.
\<close>

datatype cls =
    CAny
  | CWord
  | CSpace
  | CDigit
  | CUpper
  | CChar char
  | CIn "char list"
  | CNotIn "char list"

datatype rx =
    Cls cls
  | Lit string
  | Seq rx rx
  | Alt rx rx
  | Star cls
  | Plus cls
  | LazyStar cls
  | LazyPlus cls
  | Grp nat rx
  | WordB
  | Bol
  | Eol
  | Eps

definition ch_eq :: "bool \<Rightarrow> char \<Rightarrow> char \<Rightarrow> bool" where
  "ch_eq ci c x = (if ci then lower_char c = lower_char x else c = x)"

fun cls_ok :: "bool \<Rightarrow> cls \<Rightarrow> char \<Rightarrow> bool" where
  "cls_ok ci CAny x = (\<not> is_line_terminator x)"
| "cls_ok ci CWord x = is_word x"
| "cls_ok ci CSpace x = is_space x"
| "cls_ok ci CDigit x = is_digit x"
| "cls_ok ci CUpper x = (if ci then is_upper x \<or> is_lower x else is_upper x)"
| "cls_ok ci (CChar c) x = ch_eq ci c x"
| "cls_ok ci (CIn cs) x = list_ex (\<lambda>c. ch_eq ci c x) cs"
| "cls_ok ci (CNotIn cs) x = (\<not> list_ex (\<lambda>c. ch_eq ci c x) cs)"

type_synonym caps = "(nat \<times> string) list"

type_synonym mres = "string \<times> string \<times> caps"

fun lit_match :: "bool \<Rightarrow> string \<Rightarrow> string \<Rightarrow> string \<Rightarrow> (string \<times> string) option" where
  "lit_match ci [] acc rest = Some (acc, rest)"
| "lit_match ci (c # w) acc [] = None"
| "lit_match ci (c # w) acc (x # xs) = (if ch_eq ci c x then lit_match ci w (x # acc) xs else None)"

fun star_greedy :: "(char \<Rightarrow> bool) \<Rightarrow> string \<Rightarrow> string \<Rightarrow> (string \<Rightarrow> string \<Rightarrow> mres option) \<Rightarrow> mres option" where
  "star_greedy p acc [] k = k acc []"
| "star_greedy p acc (x # xs) k =
     (if p x then (case star_greedy p (x # acc) xs k of Some r \<Rightarrow> Some r | None \<Rightarrow> k acc (x # xs))
      else k acc (x # xs))"

fun star_lazy :: "(char \<Rightarrow> bool) \<Rightarrow> string \<Rightarrow> string \<Rightarrow> (string \<Rightarrow> string \<Rightarrow> mres option) \<Rightarrow> mres option" where
  "star_lazy p acc [] k = k acc []"
| "star_lazy p acc (x # xs) k =
     (case k acc (x # xs) of Some r \<Rightarrow> Some r
      | None \<Rightarrow> if p x then star_lazy p (x # acc) xs k else None)"

definition word_before :: "string \<Rightarrow> string \<Rightarrow> bool" where
  "word_before ctx acc =
     (case acc of c # _ \<Rightarrow> is_word c | [] \<Rightarrow> (case ctx of [] \<Rightarrow> False | c # _ \<Rightarrow> is_word c))"

definition word_after :: "string \<Rightarrow> bool" where
  "word_after rest = (case rest of [] \<Rightarrow> False | c # _ \<Rightarrow> is_word c)"

text \<open>
  \<open>m ci r ctx acc rest cs k\<close> matches \<open>r\<close> at the current position.  \<open>ctx\<close> is the input
  before the start of the match and \<open>acc\<close> the input matched so far, both reversed; \<open>rest\<close>
  is the input from the current position on, \<open>cs\<close> the capture groups set so far and \<open>k\<close>
  what remains to be matched.  \<open>ci\<close> is the flag \<^verbatim>\<open>i\<close>.
\<close>

fun m :: "bool \<Rightarrow> rx \<Rightarrow> string \<Rightarrow> string \<Rightarrow> string \<Rightarrow> caps \<Rightarrow> (string \<Rightarrow> string \<Rightarrow> caps \<Rightarrow> mres option) \<Rightarrow> mres option" where
  "m ci (Cls c) ctx acc rest cs k =
     (case rest of [] \<Rightarrow> None | x # xs \<Rightarrow> if cls_ok ci c x then k (x # acc) xs cs else None)"
| "m ci (Lit w) ctx acc rest cs k =
     (case lit_match ci w acc rest of None \<Rightarrow> None | Some (acc', rest') \<Rightarrow> k acc' rest' cs)"
| "m ci (Seq a b) ctx acc rest cs k =
     m ci a ctx acc rest cs (\<lambda>acc' rest' cs'. m ci b ctx acc' rest' cs' k)"
| "m ci (Alt a b) ctx acc rest cs k =
     (case m ci a ctx acc rest cs k of Some r \<Rightarrow> Some r | None \<Rightarrow> m ci b ctx acc rest cs k)"
| "m ci (Star c) ctx acc rest cs k =
     star_greedy (cls_ok ci c) acc rest (\<lambda>acc' rest'. k acc' rest' cs)"
| "m ci (Plus c) ctx acc rest cs k =
     (case rest of [] \<Rightarrow> None
      | x # xs \<Rightarrow> if cls_ok ci c x
          then star_greedy (cls_ok ci c) (x # acc) xs (\<lambda>acc' rest'. k acc' rest' cs) else None)"
| "m ci (LazyStar c) ctx acc rest cs k =
     star_lazy (cls_ok ci c) acc rest (\<lambda>acc' rest'. k acc' rest' cs)"
| "m ci (LazyPlus c) ctx acc rest cs k =
     (case rest of [] \<Rightarrow> None
      | x # xs \<Rightarrow> if cls_ok ci c x
          then star_lazy (cls_ok ci c) (x # acc) xs (\<lambda>acc' rest'. k acc' rest' cs) else None)"
| "m ci (Grp i a) ctx acc rest cs k =
     m ci a (acc @ ctx) [] rest cs (\<lambda>acc' rest' cs'. k (acc' @ acc) rest' ((i, rev acc') # cs'))"
| "m ci WordB ctx acc rest cs k =
     (if word_before ctx acc \<noteq> word_after rest then k acc rest cs else None)"
| "m ci Bol ctx acc rest cs k = (if ctx = [] \<and> acc = [] then k acc rest cs else None)"
| "m ci Eol ctx acc rest cs k = (if rest = [] then k acc rest cs else None)"
| "m ci Eps ctx acc rest cs k = k acc rest cs"

definition seqs :: "rx list \<Rightarrow> rx" where
  "seqs rs = foldr Seq rs Eps"

definition alts :: "string list \<Rightarrow> rx" where
  "alts ws = foldr (\<lambda>w r. Alt (Lit w) r) (butlast ws) (Lit (last ws))"

text \<open>A match that starts at the current position: the text matched, reversed, the text after
  it and the captures.\<close>

definition match_at :: "bool \<Rightarrow> rx \<Rightarrow> string \<Rightarrow> string \<Rightarrow> mres option" where
  "match_at ci r ctx rest = m ci r ctx [] rest [] (\<lambda>acc' rest' cs'. Some (acc', rest', cs'))"

text \<open>The first match at or after the current position: the text skipped, the text matched,
  the captures and the text after the match.\<close>

fun find_match :: "bool \<Rightarrow> rx \<Rightarrow> string \<Rightarrow> string \<Rightarrow> (string \<times> string \<times> caps \<times> string) option" where
  "find_match ci r ctx [] =
     (case match_at ci r ctx [] of None \<Rightarrow> None | Some (acc, rest', cs) \<Rightarrow> Some ([], [], cs, []))"
| "find_match ci r ctx (x # xs) =
     (case match_at ci r ctx (x # xs) of
        Some (acc, rest', cs) \<Rightarrow> Some ([], rev acc, cs, rest')
      | None \<Rightarrow> (case find_match ci r (x # ctx) xs of None \<Rightarrow> None
                 | Some (pre, mt, cs, rest') \<Rightarrow> Some (x # pre, mt, cs, rest')))"

definition cap :: "caps \<Rightarrow> nat \<Rightarrow> string" where
  "cap cs i = (case map_of cs i of None \<Rightarrow> [] | Some v \<Rightarrow> v)"

lemma lit_match_sound:
  "lit_match ci w acc rest = Some (acc', rest') \<Longrightarrow>
     \<exists>v. rest = v @ rest' \<and> acc' = rev v @ acc \<and> list_all2 (ch_eq ci) w v"
proof (induction ci w acc rest rule: lit_match.induct)
  case (3 ci c w acc x xs)
  then obtain v where "xs = v @ rest'" "acc' = rev v @ x # acc" "list_all2 (ch_eq ci) w v"
    and "ch_eq ci c x"
    by (auto split: if_splits)
  then show ?case by (intro exI[of _ "x # v"]) simp
qed simp_all

lemma star_greedy_sound:
  "star_greedy p acc rest k = Some res \<Longrightarrow>
     \<exists>w rest'. rest = w @ rest' \<and> list_all p w \<and> k (rev w @ acc) rest' = Some res"
proof (induction rest arbitrary: acc)
  case Nil
  then show ?case by simp
next
  case (Cons x xs)
  show ?case
  proof (cases "p x \<and> star_greedy p (x # acc) xs k = Some res")
    case True
    with Cons.IH[of "x # acc"] obtain w rest' where
      "xs = w @ rest'" "list_all p w" "k (rev w @ x # acc) rest' = Some res" by blast
    with True show ?thesis by (intro exI[of _ "x # w"] exI[of _ rest']) simp
  next
    case False
    with Cons.prems have "k acc (x # xs) = Some res"
      by (auto split: if_splits option.splits)
    then show ?thesis by (intro exI[of _ "[]"] exI[of _ "x # xs"]) simp
  qed
qed

lemma star_lazy_sound:
  "star_lazy p acc rest k = Some res \<Longrightarrow>
     \<exists>w rest'. rest = w @ rest' \<and> list_all p w \<and> k (rev w @ acc) rest' = Some res"
proof (induction rest arbitrary: acc)
  case Nil
  then show ?case by simp
next
  case (Cons x xs)
  show ?case
  proof (cases "k acc (x # xs)")
    case (Some r)
    with Cons.prems have "k acc (x # xs) = Some res" by simp
    then show ?thesis by (intro exI[of _ "[]"] exI[of _ "x # xs"]) simp
  next
    case None
    with Cons.prems have px: "p x" and "star_lazy p (x # acc) xs k = Some res"
      by (auto split: if_splits)
    with Cons.IH[of "x # acc"] obtain w rest' where
      "xs = w @ rest'" "list_all p w" "k (rev w @ x # acc) rest' = Some res" by blast
    with px show ?thesis by (intro exI[of _ "x # w"] exI[of _ rest']) simp
  qed
qed

text \<open>
  What a match of \<open>r\<close> looks like, whatever surrounds it: \<open>shape ci r w cs cs'\<close> says that
  \<open>w\<close> is built as \<open>r\<close> prescribes and that matching it extends the captures \<open>cs\<close> to
  \<open>cs'\<close>.  Whatever the matcher returns, it returns through its continuation, called after a
  text of that shape.
\<close>

fun shape :: "bool \<Rightarrow> rx \<Rightarrow> string \<Rightarrow> caps \<Rightarrow> caps \<Rightarrow> bool" where
  "shape ci (Cls c) w cs cs' = (\<exists>x. w = [x] \<and> cls_ok ci c x \<and> cs' = cs)"
| "shape ci (Lit l) w cs cs' = (list_all2 (ch_eq ci) l w \<and> cs' = cs)"
| "shape ci (Seq a b) w cs cs' = (\<exists>u v cs1. w = u @ v \<and> shape ci a u cs cs1 \<and> shape ci b v cs1 cs')"
| "shape ci (Alt a b) w cs cs' = (shape ci a w cs cs' \<or> shape ci b w cs cs')"
| "shape ci (Star c) w cs cs' = (list_all (cls_ok ci c) w \<and> cs' = cs)"
| "shape ci (Plus c) w cs cs' = (w \<noteq> [] \<and> list_all (cls_ok ci c) w \<and> cs' = cs)"
| "shape ci (LazyStar c) w cs cs' = (list_all (cls_ok ci c) w \<and> cs' = cs)"
| "shape ci (LazyPlus c) w cs cs' = (w \<noteq> [] \<and> list_all (cls_ok ci c) w \<and> cs' = cs)"
| "shape ci (Grp i a) w cs cs' = (\<exists>cs1. shape ci a w cs cs1 \<and> cs' = (i, w) # cs1)"
| "shape ci WordB w cs cs' = (w = [] \<and> cs' = cs)"
| "shape ci Bol w cs cs' = (w = [] \<and> cs' = cs)"
| "shape ci Eol w cs cs' = (w = [] \<and> cs' = cs)"
| "shape ci Eps w cs cs' = (w = [] \<and> cs' = cs)"

lemma m_shape:
  "m ci r ctx acc rest cs k = Some res \<Longrightarrow>
     \<exists>w rest' cs'. rest = w @ rest' \<and> shape ci r w cs cs' \<and> k (rev w @ acc) rest' cs' = Some res"
proof (induction r arbitrary: ctx acc rest cs k)
  case (Cls c)
  show ?case
  proof (cases rest)
    case Nil
    with Cls show ?thesis by simp
  next
    case (Cons x xs)
    with Cls have "k (x # acc) xs cs = Some res" "cls_ok ci c x" by (simp_all split: if_splits)
    with Cons show ?thesis by (intro exI[of _ "[x]"] exI[of _ xs] exI[of _ cs]) simp
  qed
next
  case (Lit w)
  show ?case
  proof (cases "lit_match ci w acc rest")
    case None
    with Lit show ?thesis by simp
  next
    case (Some a)
    obtain acc' rest' where a: "a = (acc', rest')" by (cases a)
    from Lit Some a have k: "k acc' rest' cs = Some res" by simp
    from lit_match_sound[OF Some[unfolded a]] obtain v where
      v: "rest = v @ rest'" "acc' = rev v @ acc" "list_all2 (ch_eq ci) w v" by (elim exE conjE)
    from k v show ?thesis by (intro exI[of _ v] exI[of _ rest'] exI[of _ cs]) simp
  qed
next
  case (Seq a b)
  from Seq.prems have "m ci a ctx acc rest cs (\<lambda>acc' rest' cs'. m ci b ctx acc' rest' cs' k) = Some res"
    by simp
  from Seq.IH(1)[OF this] obtain w1 rest1 cs1 where
    r1: "rest = w1 @ rest1" and s1: "shape ci a w1 cs cs1"
    and m2: "m ci b ctx (rev w1 @ acc) rest1 cs1 k = Some res"
    by (elim exE conjE)
  from Seq.IH(2)[OF m2] obtain w2 rest2 cs2 where
    r2: "rest1 = w2 @ rest2" and s2: "shape ci b w2 cs1 cs2"
    and k: "k (rev w2 @ rev w1 @ acc) rest2 cs2 = Some res"
    by (elim exE conjE)
  from s1 s2 have "shape ci (Seq a b) (w1 @ w2) cs cs2" by auto
  with r1 r2 k show ?case
    by (intro exI[of _ "w1 @ w2"] exI[of _ rest2] exI[of _ cs2]) simp
next
  case (Alt a b)
  show ?case
  proof (cases "m ci a ctx acc rest cs k")
    case None
    with Alt.prems have "m ci b ctx acc rest cs k = Some res" by simp
    from Alt.IH(2)[OF this] obtain w rest' cs' where
      "rest = w @ rest'" "shape ci b w cs cs'" "k (rev w @ acc) rest' cs' = Some res"
      by (elim exE conjE)
    then show ?thesis by (intro exI[of _ w] exI[of _ rest'] exI[of _ cs']) simp
  next
    case (Some r)
    with Alt.prems have "m ci a ctx acc rest cs k = Some res" by simp
    from Alt.IH(1)[OF this] obtain w rest' cs' where
      "rest = w @ rest'" "shape ci a w cs cs'" "k (rev w @ acc) rest' cs' = Some res"
      by (elim exE conjE)
    then show ?thesis by (intro exI[of _ w] exI[of _ rest'] exI[of _ cs']) simp
  qed
next
  case (Star c)
  then have "star_greedy (cls_ok ci c) acc rest (\<lambda>acc' rest'. k acc' rest' cs) = Some res" by simp
  from star_greedy_sound[OF this] obtain w rest' where
    "rest = w @ rest'" "list_all (cls_ok ci c) w" "k (rev w @ acc) rest' cs = Some res"
    by (elim exE conjE)
  then show ?case by (intro exI[of _ w] exI[of _ rest'] exI[of _ cs]) simp
next
  case (Plus c)
  show ?case
  proof (cases rest)
    case Nil
    with Plus show ?thesis by simp
  next
    case (Cons x xs)
    with Plus have px: "cls_ok ci c x" and
      "star_greedy (cls_ok ci c) (x # acc) xs (\<lambda>acc' rest'. k acc' rest' cs) = Some res"
      by (simp_all split: if_splits)
    from star_greedy_sound[OF this(2)] obtain w rest' where
      "xs = w @ rest'" "list_all (cls_ok ci c) w" "k (rev w @ x # acc) rest' cs = Some res"
      by (elim exE conjE)
    with Cons px show ?thesis by (intro exI[of _ "x # w"] exI[of _ rest'] exI[of _ cs]) simp
  qed
next
  case (LazyStar c)
  then have "star_lazy (cls_ok ci c) acc rest (\<lambda>acc' rest'. k acc' rest' cs) = Some res" by simp
  from star_lazy_sound[OF this] obtain w rest' where
    "rest = w @ rest'" "list_all (cls_ok ci c) w" "k (rev w @ acc) rest' cs = Some res"
    by (elim exE conjE)
  then show ?case by (intro exI[of _ w] exI[of _ rest'] exI[of _ cs]) simp
next
  case (LazyPlus c)
  show ?case
  proof (cases rest)
    case Nil
    with LazyPlus show ?thesis by simp
  next
    case (Cons x xs)
    with LazyPlus have px: "cls_ok ci c x" and
      "star_lazy (cls_ok ci c) (x # acc) xs (\<lambda>acc' rest'. k acc' rest' cs) = Some res"
      by (simp_all split: if_splits)
    from star_lazy_sound[OF this(2)] obtain w rest' where
      "xs = w @ rest'" "list_all (cls_ok ci c) w" "k (rev w @ x # acc) rest' cs = Some res"
      by (elim exE conjE)
    with Cons px show ?thesis by (intro exI[of _ "x # w"] exI[of _ rest'] exI[of _ cs]) simp
  qed
next
  case (Grp i a)
  from Grp.prems have
    "m ci a (acc @ ctx) [] rest cs (\<lambda>acc' rest' cs'. k (acc' @ acc) rest' ((i, rev acc') # cs')) = Some res"
    by simp
  from Grp.IH[OF this] obtain w rest' cs' where
    "rest = w @ rest'" "shape ci a w cs cs'"
    "k ((rev w @ []) @ acc) rest' ((i, rev (rev w @ [])) # cs') = Some res"
    by (elim exE conjE)
  then show ?case by (intro exI[of _ w] exI[of _ rest'] exI[of _ "(i, w) # cs'"]) simp
next
  case WordB
  then have "k acc rest cs = Some res" by (simp split: if_splits)
  then show ?case by (intro exI[of _ "[]"] exI[of _ rest] exI[of _ cs]) simp
next
  case Bol
  then have "k acc rest cs = Some res" by (simp split: if_splits)
  then show ?case by (intro exI[of _ "[]"] exI[of _ rest] exI[of _ cs]) simp
next
  case Eol
  then have "k acc rest cs = Some res" by (simp split: if_splits)
  then show ?case by (intro exI[of _ "[]"] exI[of _ rest] exI[of _ cs]) simp
next
  case Eps
  then show ?case by (intro exI[of _ "[]"] exI[of _ rest] exI[of _ cs]) simp
qed

lemma match_at_shape:
  "match_at ci r ctx rest = Some (acc, rest', cs) \<Longrightarrow> rest = rev acc @ rest' \<and> shape ci r (rev acc) [] cs"
proof -
  assume "match_at ci r ctx rest = Some (acc, rest', cs)"
  then have "m ci r ctx [] rest [] (\<lambda>acc' rest' cs'. Some (acc', rest', cs')) = Some (acc, rest', cs)"
    by (simp add: match_at_def)
  from m_shape[OF this] show ?thesis by auto
qed

lemma match_at_sound:
  "match_at ci r ctx rest = Some (acc, rest', cs) \<Longrightarrow> rest = rev acc @ rest'"
  using match_at_shape by blast

lemma find_match_shape:
  "find_match ci r ctx s = Some (pre, mt, cs, rest') \<Longrightarrow> s = pre @ mt @ rest' \<and> shape ci r mt [] cs"
proof (induction s arbitrary: ctx pre)
  case Nil
  show ?case
  proof (cases "match_at ci r ctx []")
    case None
    with Nil show ?thesis by simp
  next
    case (Some a)
    obtain acc r' c' where a: "a = (acc, r', c')" by (cases a)
    with Some Nil.prems have e: "pre = []" "mt = []" "rest' = []" "cs = c'" by auto
    from match_at_shape[OF Some[unfolded a]] have "acc = []" "shape ci r (rev acc) [] c'" by auto
    with e show ?thesis by simp
  qed
next
  case (Cons x xs)
  show ?case
  proof (cases "match_at ci r ctx (x # xs)")
    case None
    with Cons.prems obtain pre' where
      "find_match ci r (x # ctx) xs = Some (pre', mt, cs, rest')" "pre = x # pre'"
      by (auto split: option.splits)
    with Cons.IH show ?thesis by simp
  next
    case (Some a)
    obtain acc r' c' where a: "a = (acc, r', c')" by (cases a)
    with Some Cons.prems have "pre = []" "mt = rev acc" "rest' = r'" "cs = c'" by auto
    with match_at_shape[OF Some[unfolded a]] show ?thesis by simp
  qed
qed

lemma find_match_sound:
  "find_match ci r ctx s = Some (pre, mt, cs, rest') \<Longrightarrow> s = pre @ mt @ rest'"
  using find_match_shape by blast

subsection \<open>The string methods that take a regular expression\<close>

text \<open>
  \<open>scan\<close> is the loop of a global (\<^verbatim>\<open>g\<close>) search: the matches from left to right, each
  with the unmatched text before it, and the text after the last match.  After an empty match
  the search moves on by one code unit.
\<close>

function scan :: "bool \<Rightarrow> rx \<Rightarrow> string \<Rightarrow> string \<Rightarrow> (string \<times> string \<times> caps) list \<times> string" where
  "scan ci r ctx s =
     (case find_match ci r ctx s of
        None \<Rightarrow> ([], s)
      | Some (pre, mt, cs, rest') \<Rightarrow>
          (if mt = [] then
             (case rest' of
                [] \<Rightarrow> ([(pre, mt, cs)], [])
              | x # xs \<Rightarrow>
                  (case scan ci r (x # rev pre @ ctx) xs of
                     ([], rm) \<Rightarrow> ([(pre, mt, cs)], x # rm)
                   | ((p1, m1, c1) # ms, rm) \<Rightarrow> ((pre, mt, cs) # (x # p1, m1, c1) # ms, rm)))
           else (case scan ci r (rev mt @ rev pre @ ctx) rest' of
                   (ms, rm) \<Rightarrow> ((pre, mt, cs) # ms, rm))))"
  by pat_completeness auto
termination
proof (relation "measure (\<lambda>(ci, r, ctx, s). length s)", goal_cases)
  case 1
  show ?case by simp
next
  case (2 ci r ctx s a pre b mt c cs rest' x xs)
  then have "find_match ci r ctx s = Some (pre, mt, cs, x # xs)" by simp
  from find_match_sound[OF this] show ?case by simp
next
  case (3 ci r ctx s a pre b mt c cs rest')
  then have "find_match ci r ctx s = Some (pre, mt, cs, rest')" by simp
  from find_match_sound[OF this] 3 show ?case by simp
qed

declare scan.simps [simp del]

text \<open>\<^verbatim>\<open>s.replace(r, f)\<close> for a global \<open>r\<close>, where \<open>f\<close> gets the match and the captures.\<close>

definition replace_all :: "bool \<Rightarrow> rx \<Rightarrow> (string \<Rightarrow> caps \<Rightarrow> string) \<Rightarrow> string \<Rightarrow> string" where
  "replace_all ci r f s =
     (case scan ci r [] s of (ms, rm) \<Rightarrow> concat (map (\<lambda>(pre, mt, cs). pre @ f mt cs) ms) @ rm)"

text \<open>\<^verbatim>\<open>s.replace(r, f)\<close> for an \<open>r\<close> without the flag \<^verbatim>\<open>g\<close>: the first match only.\<close>

definition replace_first :: "bool \<Rightarrow> rx \<Rightarrow> (string \<Rightarrow> caps \<Rightarrow> string) \<Rightarrow> string \<Rightarrow> string" where
  "replace_first ci r f s =
     (case find_match ci r [] s of None \<Rightarrow> s
      | Some (pre, mt, cs, rest') \<Rightarrow> pre @ f mt cs @ rest')"

text \<open>\<^verbatim>\<open>s.match(r)\<close> for a global \<open>r\<close>; the empty list stands for \<^verbatim>\<open>null\<close>.\<close>

definition match_all :: "bool \<Rightarrow> rx \<Rightarrow> string \<Rightarrow> string list" where
  "match_all ci r s = map (\<lambda>(pre, mt, cs). mt) (fst (scan ci r [] s))"

text \<open>\<^verbatim>\<open>r.test(s)\<close> on a fresh \<open>r\<close>.\<close>

definition test :: "bool \<Rightarrow> rx \<Rightarrow> string \<Rightarrow> bool" where
  "test ci r s = (find_match ci r [] s \<noteq> None)"

text \<open>
  \<^verbatim>\<open>s.split(r)\<close>: the loop of the ECMAScript algorithm.  \<open>cur\<close> is the piece since the end
  of the last separator, reversed; a match that is empty and sits at the end of the last
  separator is skipped; the values of the \<open>ng\<close> capture groups follow each piece.
\<close>

function split_loop :: "bool \<Rightarrow> rx \<Rightarrow> nat \<Rightarrow> string \<Rightarrow> string \<Rightarrow> string \<Rightarrow> string list" where
  "split_loop ci r ng ctx cur rest =
     (case rest of
        [] \<Rightarrow> [rev cur]
      | x # xs \<Rightarrow>
          (case match_at ci r ctx rest of
             None \<Rightarrow> split_loop ci r ng (x # ctx) (x # cur) xs
           | Some (acc, rest', cs) \<Rightarrow>
               if acc = [] \<and> cur = [] then split_loop ci r ng (x # ctx) (x # cur) xs
               else rev cur # map (cap cs) [1..<Suc ng] @ split_loop ci r ng (acc @ ctx) [] rest'))"
  by pat_completeness auto
termination
proof (relation "measure (\<lambda>(ci, r, ng, ctx, cur, rest). 2 * length rest + (if cur = [] then 0 else 1))",
    goal_cases)
  case 1
  show ?case by simp
next
  case 2
  then show ?case by simp
next
  case 3
  then show ?case by simp
next
  case (4 ci r ng ctx cur rest x xs a acc b rest' cs)
  then have "match_at ci r ctx rest = Some (acc, rest', cs)" by simp
  from match_at_sound[OF this] 4 show ?case by (cases acc) auto
qed

declare split_loop.simps [simp del]

definition split_rx :: "bool \<Rightarrow> rx \<Rightarrow> nat \<Rightarrow> string \<Rightarrow> string list" where
  "split_rx ci r ng s =
     (if s = [] then (case match_at ci r [] [] of None \<Rightarrow> [[]] | Some _ \<Rightarrow> [])
      else split_loop ci r ng [] [] s)"

text \<open>\<^verbatim>\<open>s.split(/\s+/)\<close>, by which the sources count words.\<close>

definition split_ws :: "string \<Rightarrow> string list" where
  "split_ws s = split_rx False (Plus CSpace) 0 s"


section \<open>Change records\<close>

datatype category = Clarity | Style | Structure | Vocabulary

record change =
  rule :: string
  type :: category
  before :: string
  after :: string
  reason :: string

text \<open>\<^verbatim>\<open>s.slice(0, -n)\<close>\<close>

definition drop_last :: "nat \<Rightarrow> string \<Rightarrow> string" where
  "drop_last n s = take (length s - n) s"

text \<open>\<^verbatim>\<open>s.charAt(0).toUpperCase() + s.slice(1)\<close>\<close>

definition capitalize :: "string \<Rightarrow> string" where
  "capitalize s = (case s of [] \<Rightarrow> [] | c # cs \<Rightarrow> upper_char c # cs)"

definition digit_char :: "nat \<Rightarrow> char" where
  "digit_char n = char_of (48 + n)"

function string_of_nat :: "nat \<Rightarrow> string" where
  "string_of_nat n = (if n < 10 then [digit_char n] else string_of_nat (n div 10) @ [digit_char (n mod 10)])"
  by pat_completeness auto
termination
  by (relation "measure id") auto

declare string_of_nat.simps [simp del]


section \<open>The clarity rules\<close>

text \<open>Each rule takes the text and the \<^verbatim>\<open>changes\<close> array of its engine and returns the new
  text and the array after the call.\<close>

definition irregularVerbs :: "(string \<times> string) list" where
  "irregularVerbs =
     [(''written'', ''wrote''),
      (''driven'', ''drove''),
      (''given'', ''gave''),
      (''taken'', ''took''),
      (''chosen'', ''chose''),
      (''seen'', ''saw''),
      (''done'', ''did''),
      (''known'', ''knew''),
      (''shown'', ''showed''),
      (''proven'', ''proved''),
      (''broken'', ''broke''),
      (''spoken'', ''spoke''),
      (''eaten'', ''ate''),
      (''beaten'', ''beat''),
      (''forgotten'', ''forgot''),
      (''frozen'', ''froze''),
      (''gotten'', ''got''),
      (''hidden'', ''hid''),
      (''ridden'', ''rode''),
      (''risen'', ''rose''),
      (''stolen'', ''stole''),
      (''worn'', ''wore'')]"

definition getActiveVerb :: "string \<Rightarrow> string" where
  "getActiveVerb pastParticiple =
     (case map_of irregularVerbs pastParticiple of
        Some v \<Rightarrow> v
      | None \<Rightarrow>
          if endsWith pastParticiple ''ed'' then
            (let base = drop_last 2 pastParticiple in
             if endsWith pastParticiple ''ied'' then drop_last 3 pastParticiple @ ''y''
             else if endsWith pastParticiple ''ted'' \<or> endsWith pastParticiple ''ded'' then base
             else base)
          else pastParticiple)"

text \<open>\<^verbatim>\<open>/that\s+(.+)/i\<close>\<close>

definition restructureItIs :: "string \<Rightarrow> string \<Rightarrow> string" where
  "restructureItIs sentence verb =
     (case find_match True (seqs [Lit ''that'', Plus CSpace, Grp 1 (Plus CAny)]) [] sentence of
        Some (pre, mt, cs, rest') \<Rightarrow> capitalize (cap cs 1)
      | None \<Rightarrow> sentence)"

text \<open>
  \<^verbatim>\<open>/(\w+)\s+(?:was|were)\s+(\w+ed|en|t)\s+by\s+(.+?)(?:\.|,|$)/gi\<close>,
  \<^verbatim>\<open>/it\s+(?:is|was)\s+(\w+ed)\s+that/gi\<close> and
  \<^verbatim>\<open>/(\w+)\s+(?:has|have)\s+been\s+(\w+ed|en)\s*/gi\<close>, each with its transform.
\<close>

definition passive_by :: rx where
  "passive_by = seqs [Grp 1 (Plus CWord), Plus CSpace, Alt (Lit ''was'') (Lit ''were''), Plus CSpace,
     Grp 2 (Alt (Seq (Plus CWord) (Lit ''ed'')) (Alt (Lit ''en'') (Lit ''t''))),
     Plus CSpace, Lit ''by'', Plus CSpace, Grp 3 (LazyPlus CAny),
     Alt (Lit ''.'') (Alt (Lit '','') Eol)]"

definition passive_it :: rx where
  "passive_it = seqs [Lit ''it'', Plus CSpace, Alt (Lit ''is'') (Lit ''was''), Plus CSpace,
     Grp 1 (Seq (Plus CWord) (Lit ''ed'')), Plus CSpace, Lit ''that'']"

definition passive_been :: rx where
  "passive_been = seqs [Grp 1 (Plus CWord), Plus CSpace, Alt (Lit ''has'') (Lit ''have''), Plus CSpace,
     Lit ''been'', Plus CSpace, Grp 2 (Alt (Seq (Plus CWord) (Lit ''ed'')) (Lit ''en'')), Star CSpace]"

definition passivePatterns :: "(rx \<times> (string \<Rightarrow> caps \<Rightarrow> string)) list" where
  "passivePatterns =
     [(passive_by, \<lambda>mt cs. cap cs 3 @ '' '' @ getActiveVerb (cap cs 2) @ '' '' @ cap cs 1
                      @ drop (length mt - 1) mt),
      (passive_it, \<lambda>mt cs. restructureItIs mt (cap cs 1)),
      (passive_been, \<lambda>mt cs. cap cs 1 @ '' '' @ getActiveVerb (cap cs 2))]"

text \<open>The loop shared by the rules that run a table of patterns over the text: each pattern
  rewrites the result of the one before, and the flag records whether any of them changed it.\<close>

definition apply_patterns :: "bool \<Rightarrow> (rx \<times> (string \<Rightarrow> caps \<Rightarrow> string)) list \<Rightarrow> string \<Rightarrow> string \<times> bool" where
  "apply_patterns ci ps text =
     fold (\<lambda>(p, f) (result, changed).
             (let result' = replace_all ci p f result in (result', changed \<or> result \<noteq> result')))
          ps (text, False)"

definition fixPassiveVoice :: "string \<Rightarrow> change list \<Rightarrow> string \<times> change list" where
  "fixPassiveVoice sentence changes =
     (case apply_patterns True passivePatterns sentence of
        (result, changed) \<Rightarrow>
          (result,
           if changed then changes @ [\<lparr>rule = ''Passive Voice'', type = Clarity, before = sentence,
                after = result,
                reason = ''Converted passive voice to active voice for clearer, more direct writing''\<rparr>]
           else changes))"

text \<open>\<^verbatim>\<open>new RegExp(`\\b${term}\\b`, 'gi')\<close>; no term of the tables has a character that is
  special in a regular expression.\<close>

definition word_rx :: "string \<Rightarrow> rx" where
  "word_rx term = seqs [WordB, Lit term, WordB]"

definition table_patterns :: "(string \<times> string) list \<Rightarrow> (rx \<times> (string \<Rightarrow> caps \<Rightarrow> string)) list" where
  "table_patterns tab = map (\<lambda>(w, v). (word_rx w, \<lambda>mt cs. v)) tab"

definition replacements :: "(string \<times> string) list" where
  "replacements =
     [(''utilize'', ''use''),
      (''utilizes'', ''uses''),
      (''utilized'', ''used''),
      (''utilizing'', ''using''),
      (''implement'', ''use''),
      (''implements'', ''uses''),
      (''implemented'', ''used''),
      (''implementing'', ''using''),
      (''facilitate'', ''help''),
      (''facilitates'', ''helps''),
      (''facilitated'', ''helped''),
      (''demonstrate'', ''show''),
      (''demonstrates'', ''shows''),
      (''demonstrated'', ''showed''),
      (''approximately'', ''about''),
      (''subsequent'', ''next''),
      (''prior to'', ''before''),
      (''in order to'', ''to''),
      (''due to the fact that'', ''because''),
      (''in the event that'', ''if''),
      (''at this point in time'', ''now''),
      (''in light of the fact that'', ''because''),
      (''in spite of the fact that'', ''although''),
      (''for the purpose of'', ''to''),
      (''with regard to'', ''about''),
      (''with respect to'', ''about''),
      (''in terms of'', ''about''),
      (''on the basis of'', ''based on''),
      (''as a consequence of'', ''because of''),
      (''in conjunction with'', ''with''),
      (''in the vicinity of'', ''near''),
      (''a number of'', ''several''),
      (''the majority of'', ''most'')]"

definition simplifyLanguage :: "string \<Rightarrow> change list \<Rightarrow> string \<times> change list" where
  "simplifyLanguage text changes =
     (case apply_patterns True (table_patterns replacements) text of
        (result, hasChanges) \<Rightarrow>
          (result,
           if hasChanges then changes @ [\<lparr>rule = ''Simplified Language'', type = Vocabulary,
                before = text, after = result,
                reason = ''Replaced elaborate vocabulary with simpler alternatives''\<rparr>]
           else changes))"

text \<open>\<^verbatim>\<open>/[.!?]$/\<close>\<close>

definition ensureCompleteSentence :: "string \<Rightarrow> string" where
  "ensureCompleteSentence fragment =
     (let sentence = trim fragment in
      if sentence = [] then []
      else (let sentence = capitalize sentence in
            if \<not> test False (seqs [Cls (CIn ''.!?''), Eol]) sentence then sentence @ ''.''
            else sentence))"

text \<open>
  The conjunction patterns \<^verbatim>\<open>/,\s*and\s+/i\<close>, \<^verbatim>\<open>/,\s*but\s+/i\<close>, \<^verbatim>\<open>/;\s*/g\<close>,
  \<^verbatim>\<open>/,\s*which\s+/i\<close> and \<^verbatim>\<open>/,\s*while\s+/i\<close>, each with its flag \<^verbatim>\<open>i\<close>.
\<close>

definition conjunctions :: "(bool \<times> rx) list" where
  "conjunctions =
     [(True, seqs [Lit '','', Star CSpace, Lit ''and'', Plus CSpace]),
      (True, seqs [Lit '','', Star CSpace, Lit ''but'', Plus CSpace]),
      (False, seqs [Lit '';'', Star CSpace]),
      (True, seqs [Lit '','', Star CSpace, Lit ''which'', Plus CSpace]),
      (True, seqs [Lit '','', Star CSpace, Lit ''while'', Plus CSpace])]"

fun intelligentSplit_loop :: "(bool \<times> rx) list \<Rightarrow> string \<Rightarrow> string list" where
  "intelligentSplit_loop [] sentence = [sentence]"
| "intelligentSplit_loop ((ci, pat) # conjs) sentence =
     (if test ci pat sentence then
        (let parts = split_rx ci pat 0 sentence in
         if length parts = 2 \<and> list_all (\<lambda>p. length (split_ws p) \<ge> 5) parts
         then [ensureCompleteSentence (parts ! 0), ensureCompleteSentence (parts ! 1)]
         else intelligentSplit_loop conjs sentence)
      else intelligentSplit_loop conjs sentence)"

definition intelligentSplit :: "string \<Rightarrow> string list" where
  "intelligentSplit sentence = intelligentSplit_loop conjunctions sentence"

text \<open>\<^verbatim>\<open>/[^.!?]+[.!?]+/g\<close>\<close>

definition sentence_rx :: rx where
  "sentence_rx = seqs [Plus (CNotIn ''.!?''), Plus (CIn ''.!?'')]"

definition splitLongSentences_step :: "string \<Rightarrow> string list \<times> change list \<Rightarrow> string list \<times> change list" where
  "splitLongSentences_step sentence = (\<lambda>(processedSentences, changes).
     (let trimmed = trim sentence; wordCount = length (split_ws trimmed) in
      if wordCount > 25 then
        (let split = intelligentSplit trimmed in
         (processedSentences @ split,
          if length split > 1 then changes @ [\<lparr>rule = ''Long Sentence'', type = Clarity,
               before = trimmed, after = join '' '' split,
               reason = ''Split sentence with '' @ string_of_nat wordCount
                          @ '' words into shorter, clearer sentences''\<rparr>]
          else changes))
      else (processedSentences @ [trimmed], changes)))"

text \<open>\<^verbatim>\<open>text.match(/[^.!?]+[.!?]+/g) || [text]\<close>\<close>

definition sentences_or_text :: "string \<Rightarrow> string list" where
  "sentences_or_text text =
     (let ms = match_all False sentence_rx text in if ms = [] then [text] else ms)"

definition splitLongSentences :: "string \<Rightarrow> change list \<Rightarrow> string \<times> change list" where
  "splitLongSentences text changes =
     (case fold splitLongSentences_step (sentences_or_text text) ([], changes) of
        (processedSentences, changes') \<Rightarrow> (join '' '' processedSentences, changes'))"

text \<open>\<^verbatim>\<open>/\b(which|that|who|whom|whose|where|when|while|although|because|since|if|unless|after|before|as)\b/gi\<close>\<close>

definition countClauses :: "string \<Rightarrow> nat" where
  "countClauses sentence =
     (let matches = match_all True (seqs [WordB, Grp 1 (alts [''which'', ''that'', ''who'', ''whom'',
            ''whose'', ''where'', ''when'', ''while'', ''although'', ''because'', ''since'', ''if'',
            ''unless'', ''after'', ''before'', ''as'']), WordB]) sentence in
      if matches \<noteq> [] then length matches + 1 else 1)"

text \<open>\<^verbatim>\<open>/\s+(and|but|however|moreover|furthermore|additionally|also)\s+/gi\<close>\<close>

definition connectors :: rx where
  "connectors = seqs [Plus CSpace, Grp 1 (alts [''and'', ''but'', ''however'', ''moreover'',
     ''furthermore'', ''additionally'', ''also'']), Plus CSpace]"

definition separateMultipleIdeas :: "string \<Rightarrow> change list \<Rightarrow> string list \<times> change list" where
  "separateMultipleIdeas sentence changes =
     (let clauses = countClauses sentence in
      if clauses \<le> 2 then ([sentence], changes)
      else (let parts = filter (\<lambda>part. length part > 0 \<and>
                    \<not> List.member [''and'', ''but'', ''however'', ''moreover'', ''furthermore'',
                        ''additionally'', ''also''] (toLowerCase part))
                  (split_rx True connectors 1 sentence) in
            if length parts > 1 then
              (let separated = map (\<lambda>part. ensureCompleteSentence (trim part)) parts in
               (separated, changes @ [\<lparr>rule = ''Multiple Ideas'', type = Clarity, before = sentence,
                   after = join '' '' separated,
                   reason = ''Separated multiple ideas into individual sentences for clarity''\<rparr>]))
            else ([sentence], changes)))"


section \<open>The style rules\<close>

definition forbidden :: "string list" where
  "forbidden =
     [''paradigm'',
      ''framework'',
      ''thus'',
      ''therefore'',
      ''hence'',
      ''Note that'',
      ''It should be noted that'',
      ''It is worth noting that'',
      ''It is important to note that'',
      ''In this paper'',
      ''In this work'',
      ''In this study'',
      ''aforementioned'',
      ''hereby'',
      ''heretofore'',
      ''henceforth'',
      ''whilst'',
      ''amongst'',
      ''albeit'']"

text \<open>The clean-up replacements \<^verbatim>\<open>/\s+/g\<close> by a space, \<^verbatim>\<open>/\s+([.,!?;:])/g\<close> by
  \<^verbatim>\<open>$1\<close>, \<^verbatim>\<open>/^\s*[.,;]\s*/\<close> by nothing, \<^verbatim>\<open>/\.\s*\./g\<close> by a period and
  \<^verbatim>\<open>/([.,])\s*,/g\<close> by a comma.\<close>

definition collapse_spaces :: "string \<Rightarrow> string" where
  "collapse_spaces s = replace_all False (Plus CSpace) (\<lambda>mt cs. '' '') s"

definition unspace_punct :: "string \<Rightarrow> string" where
  "unspace_punct s =
     replace_all False (seqs [Plus CSpace, Grp 1 (Cls (CIn ''.,!?;:''))]) (\<lambda>mt cs. cap cs 1) s"

definition strip_leading_punct :: "string \<Rightarrow> string" where
  "strip_leading_punct s =
     replace_first False (seqs [Bol, Star CSpace, Cls (CIn ''.,;''), Star CSpace]) (\<lambda>mt cs. []) s"

definition collapse_periods :: "string \<Rightarrow> string" where
  "collapse_periods s =
     replace_all False (seqs [Lit ''.'', Star CSpace, Lit ''.'']) (\<lambda>mt cs. ''.'') s"

definition collapse_commas :: "string \<Rightarrow> string" where
  "collapse_commas s =
     replace_all False (seqs [Grp 1 (Cls (CIn ''.,'')), Star CSpace, Lit '','']) (\<lambda>mt cs. '','') s"

definition cleanVocabulary :: "string \<Rightarrow> change list \<Rightarrow> string \<times> change list" where
  "cleanVocabulary text changes =
     (case apply_patterns True (map (\<lambda>term. (word_rx term, \<lambda>mt cs. [])) forbidden) text of
        (result, hasChanges) \<Rightarrow>
          (let result = unspace_punct (collapse_spaces result);
               result = strip_leading_punct result;
               result = collapse_periods result in
           (result,
            if hasChanges then changes @ [\<lparr>rule = ''Forbidden Vocabulary'', type = Vocabulary,
                 before = text, after = result,
                 reason = ''Removed forbidden academic jargon and redundant phrases''\<rparr>]
            else changes)))"

text \<open>
  \<^verbatim>\<open>/\bwe\s+will\s+(\w+)/gi\<close>, \<^verbatim>\<open>/\bwill\s+be\s+(\w+ing)/gi\<close>, \<^verbatim>\<open>/\bwill\s+(\w+)/gi\<close>,
  \<^verbatim>\<open>/\bshall\s+(\w+)/gi\<close>, \<^verbatim>\<open>/\bis\s+going\s+to\s+(\w+)/gi\<close> and
  \<^verbatim>\<open>/\bare\s+going\s+to\s+(\w+)/gi\<close>, each with its replacement.
\<close>

definition futurePatterns :: "(rx \<times> (string \<Rightarrow> caps \<Rightarrow> string)) list" where
  "futurePatterns =
     [(seqs [WordB, Lit ''we'', Plus CSpace, Lit ''will'', Plus CSpace, Grp 1 (Plus CWord)],
         \<lambda>mt cs. ''we '' @ cap cs 1),
      (seqs [WordB, Lit ''will'', Plus CSpace, Lit ''be'', Plus CSpace,
             Grp 1 (Seq (Plus CWord) (Lit ''ing''))],
         \<lambda>mt cs. cap cs 1),
      (seqs [WordB, Lit ''will'', Plus CSpace, Grp 1 (Plus CWord)],
         \<lambda>mt cs. (let verb = cap cs 1 in
                    if verb = ''be'' then ''is''
                    else if endsWith verb ''e'' then verb @ ''s''
                    else verb @ ''s'')),
      (seqs [WordB, Lit ''shall'', Plus CSpace, Grp 1 (Plus CWord)],
         \<lambda>mt cs. cap cs 1),
      (seqs [WordB, Lit ''is'', Plus CSpace, Lit ''going'', Plus CSpace, Lit ''to'', Plus CSpace,
             Grp 1 (Plus CWord)],
         \<lambda>mt cs. cap cs 1 @ ''s''),
      (seqs [WordB, Lit ''are'', Plus CSpace, Lit ''going'', Plus CSpace, Lit ''to'', Plus CSpace,
             Grp 1 (Plus CWord)],
         \<lambda>mt cs. cap cs 1)]"

definition fixTense :: "string \<Rightarrow> change list \<Rightarrow> string \<times> change list" where
  "fixTense text changes =
     (case apply_patterns True futurePatterns text of
        (result, hasChanges) \<Rightarrow>
          (result,
           if hasChanges then changes @ [\<lparr>rule = ''Tense Correction'', type = Style,
                before = text, after = result,
                reason = ''Converted future tense to present tense for academic writing''\<rparr>]
           else changes))"

text \<open>
  \<^verbatim>\<open>s.replace(pattern, replacement)\<close> for two strings: the first occurrence of \<open>pattern\<close> is
  replaced, and in \<open>replacement\<close> the sequences \<^verbatim>\<open>$$\<close>, \<^verbatim>\<open>$&\<close>, \<^verbatim>\<open>$`\<close> and \<^verbatim>\<open>$'\<close>
  stand for a dollar sign, the match, the text before it and the text after it.
\<close>

fun get_substitution :: "string \<Rightarrow> string \<Rightarrow> string \<Rightarrow> string \<Rightarrow> string" where
  "get_substitution mt pre post (c # d # t) =
     (if c = CHR ''$'' then
        (if d = CHR ''$'' then CHR ''$'' # get_substitution mt pre post t
         else if d = CHR ''&'' then mt @ get_substitution mt pre post t
         else if d = CHR 0x60 then pre @ get_substitution mt pre post t
         else if d = CHR 0x27 then post @ get_substitution mt pre post t
         else c # get_substitution mt pre post (d # t))
      else c # get_substitution mt pre post (d # t))"
| "get_substitution mt pre post t = t"

fun replace_str_from :: "string \<Rightarrow> string \<Rightarrow> string \<Rightarrow> string \<Rightarrow> string option" where
  "replace_str_from pat repl pre [] =
     (if pat = [] then Some (rev pre @ get_substitution pat (rev pre) [] repl) else None)"
| "replace_str_from pat repl pre (x # xs) =
     (if is_prefix pat (x # xs)
      then Some (rev pre @ get_substitution pat (rev pre) (drop (length pat) (x # xs)) repl
                  @ drop (length pat) (x # xs))
      else replace_str_from pat repl (x # pre) xs)"

definition replace_str :: "string \<Rightarrow> string \<Rightarrow> string \<Rightarrow> string" where
  "replace_str pat repl s = (case replace_str_from pat repl [] s of None \<Rightarrow> s | Some s' \<Rightarrow> s')"

text \<open>\<^verbatim>\<open>/\([^)]+\)/g\<close> and \<^verbatim>\<open>/\[\d+\]/g\<close>\<close>

definition parentheticalPattern :: rx where
  "parentheticalPattern = seqs [Lit ''('', Plus (CNotIn '')''), Lit '')'']"

definition footnotePattern :: rx where
  "footnotePattern = seqs [Lit ''['', Plus CDigit, Lit '']'']"

definition removeParentheticals_step :: "string \<Rightarrow> string \<Rightarrow> string" where
  "removeParentheticals_step mt result =
     (let content = trim (drop_last 1 (drop 1 mt)) in
      if length content > 30 then replace_str mt (''. '' @ content @ ''.'') result
      else if length content > 10 then replace_str mt ('', '' @ content @ '','') result
      else replace_str mt ('' '' @ content) result)"

definition removeParentheticals :: "string \<Rightarrow> change list \<Rightarrow> string \<times> change list" where
  "removeParentheticals text changes =
     (let matches = match_all False parentheticalPattern text;
          result = fold removeParentheticals_step matches text;
          hasChanges = (matches \<noteq> []);
          footnoteBefore = result;
          result = replace_all False footnotePattern (\<lambda>mt cs. []) result;
          hasChanges = (hasChanges \<or> footnoteBefore \<noteq> result);
          result = collapse_spaces result;
          result = unspace_punct result;
          result = collapse_commas result;
          result = collapse_periods result in
      (result,
       if hasChanges then changes @ [\<lparr>rule = ''Parentheticals Removed'', type = Style,
            before = text, after = result,
            reason = ''Converted parenthetical content to regular text for better flow''\<rparr>]
       else changes))"

definition redundantPhrases :: "(string \<times> string) list" where
  "redundantPhrases =
     [(''absolutely essential'', ''essential''),
      (''absolutely necessary'', ''necessary''),
      (''actual fact'', ''fact''),
      (''added bonus'', ''bonus''),
      (''advance planning'', ''planning''),
      (''advance warning'', ''warning''),
      (''all-time record'', ''record''),
      (''basic fundamentals'', ''fundamentals''),
      (''brief summary'', ''summary''),
      (''close proximity'', ''proximity''),
      (''combine together'', ''combine''),
      (''completely eliminate'', ''eliminate''),
      (''consensus of opinion'', ''consensus''),
      (''continue on'', ''continue''),
      (''each and every'', ''each''),
      (''end result'', ''result''),
      (''exactly the same'', ''the same''),
      (''final outcome'', ''outcome''),
      (''first and foremost'', ''first''),
      (''free gift'', ''gift''),
      (''future plans'', ''plans''),
      (''general consensus'', ''consensus''),
      (''joint collaboration'', ''collaboration''),
      (''major breakthrough'', ''breakthrough''),
      (''merge together'', ''merge''),
      (''mutual cooperation'', ''cooperation''),
      (''new innovation'', ''innovation''),
      (''null and void'', ''void''),
      (''past experience'', ''experience''),
      (''past history'', ''history''),
      (''period of time'', ''period''),
      (''personal opinion'', ''opinion''),
      (''plan ahead'', ''plan''),
      (''positive improvement'', ''improvement''),
      (''postpone until later'', ''postpone''),
      (''reduce down'', ''reduce''),
      (''refer back'', ''refer''),
      (''repeat again'', ''repeat''),
      (''revert back'', ''revert''),
      (''same exact'', ''same''),
      (''serious crisis'', ''crisis''),
      (''still remains'', ''remains''),
      (''sudden impulse'', ''impulse''),
      (''sum total'', ''total''),
      (''true fact'', ''fact''),
      (''unexpected surprise'', ''surprise''),
      (''unintentional mistake'', ''mistake''),
      (''various different'', ''various''),
      (''very unique'', ''unique'')]"

definition removeRedundancy :: "string \<Rightarrow> change list \<Rightarrow> string \<times> change list" where
  "removeRedundancy text changes =
     (case apply_patterns True (table_patterns redundantPhrases) text of
        (result, hasChanges) \<Rightarrow>
          (result,
           if hasChanges then changes @ [\<lparr>rule = ''Redundancy Removed'', type = Style,
                before = text, after = result,
                reason = ''Eliminated redundant phrases for concise writing''\<rparr>]
           else changes))"

definition weakVerbs :: "(string \<times> string) list" where
  "weakVerbs =
     [(''is able to'', ''can''),
      (''are able to'', ''can''),
      (''was able to'', ''could''),
      (''were able to'', ''could''),
      (''has the ability to'', ''can''),
      (''have the ability to'', ''can''),
      (''is capable of'', ''can''),
      (''are capable of'', ''can''),
      (''serves to'', ''''),
      (''serves as'', ''is''),
      (''functions as'', ''is''),
      (''acts as'', ''is'')]"

definition enforceActiveWriting :: "string \<Rightarrow> change list \<Rightarrow> string \<times> change list" where
  "enforceActiveWriting text changes =
     (case apply_patterns True (table_patterns weakVerbs) text of
        (result, hasChanges) \<Rightarrow>
          (let result = trim (collapse_spaces result) in
           (result,
            if hasChanges then changes @ [\<lparr>rule = ''Active Writing'', type = Style,
                 before = text, after = result,
                 reason = ''Replaced weak verb constructions with strong, active alternatives''\<rparr>]
            else changes)))"


section \<open>The document processor\<close>

text \<open>The \<^verbatim>\<open>changes\<close> arrays of the three rule engines that the processor owns.\<close>

record engines =
  clarityRules :: "change list"
  styleRules :: "change list"
  structureRules :: "change list"

record doc_section =
  title :: string
  content :: string
  original :: "string option"
  edited :: "string option"
  changes :: "change list option"

datatype document_type = FullPaper | SectionDoc | Paragraph | Abstract

text \<open>Of the processed document, the sections and the flattened list of changes; the metrics,
  the report and the suggestions are computed from these and from the input text.\<close>

record processed_document =
  doc_type :: document_type
  sections :: "doc_section list"
  allChanges :: "change list"

fun map_state :: "('a \<Rightarrow> 's \<Rightarrow> 'b \<times> 's) \<Rightarrow> 'a list \<Rightarrow> 's \<Rightarrow> 'b list \<times> 's" where
  "map_state f [] st = ([], st)"
| "map_state f (x # xs) st =
     (case f x st of (y, st') \<Rightarrow> (case map_state f xs st' of (ys, st'') \<Rightarrow> (y # ys, st'')))"

definition processSentence :: "string \<Rightarrow> engines \<Rightarrow> string \<times> engines" where
  "processSentence sentence e =
     (if trim sentence = [] then (sentence, e)
      else
        (case fixPassiveVoice sentence (clarityRules e) of (t1, c1) \<Rightarrow>
         case simplifyLanguage t1 c1 of (t2, c2) \<Rightarrow>
         case cleanVocabulary t2 (styleRules e) of (t3, s1) \<Rightarrow>
         case fixTense t3 s1 of (t4, s2) \<Rightarrow>
         case removeRedundancy t4 s2 of (t5, s3) \<Rightarrow>
         case enforceActiveWriting t5 s3 of (t6, s4) \<Rightarrow>
         case removeParentheticals t6 s4 of (t7, s5) \<Rightarrow>
         case separateMultipleIdeas t7 c2 of (splits, c3) \<Rightarrow>
           (if length splits > 1 then join '' '' splits else t7,
            e\<lparr>clarityRules := c3, styleRules := s5\<rparr>)))"

definition splitIntoSentences_step :: "string \<Rightarrow> engines \<Rightarrow> string \<times> engines" where
  "splitIntoSentences_step sentence e =
     (let trimmed = trim sentence in
      if length (split_ws trimmed) > 25 then
        (case splitLongSentences trimmed (clarityRules e) of
           (result, c) \<Rightarrow> (result, e\<lparr>clarityRules := c\<rparr>))
      else (trimmed, e))"

definition splitIntoSentences :: "string \<Rightarrow> engines \<Rightarrow> string list \<times> engines" where
  "splitIntoSentences text e =
     (if text = [] then ([], e)
      else map_state splitIntoSentences_step (match_all False sentence_rx text) e)"

definition clearAllChanges :: "engines \<Rightarrow> engines" where
  "clearAllChanges e = e\<lparr>clarityRules := [], styleRules := [], structureRules := []\<rparr>"

definition collectChanges :: "engines \<Rightarrow> change list \<times> engines" where
  "collectChanges e = (clarityRules e @ styleRules e @ structureRules e, clearAllChanges e)"

text \<open>\<^verbatim>\<open>s.split('\n')\<close>\<close>

fun split_lines :: "string \<Rightarrow> string list" where
  "split_lines [] = [[]]"
| "split_lines (c # cs) =
     (if c = CHR 0x0A then [] # split_lines cs
      else (case split_lines cs of l # ls \<Rightarrow> (c # l) # ls | [] \<Rightarrow> [[c]]))"

text \<open>\<^verbatim>\<open>/^#+\s+(.+)$/\<close> and \<^verbatim>\<open>/^(?:\d+\.?\s+)?([A-Z][^.!?]*?)$/\<close>\<close>

definition sectionPattern :: rx where
  "sectionPattern = seqs [Bol, Plus (CChar CHR ''#''), Plus CSpace, Grp 1 (Plus CAny), Eol]"

definition numberedPattern :: rx where
  "numberedPattern = seqs [Bol, Alt (seqs [Plus CDigit, Alt (Lit ''.'') Eps, Plus CSpace]) Eps,
     Grp 1 (Seq (Cls CUpper) (LazyStar (CNotIn ''.!?''))), Eol]"

text \<open>\<^verbatim>\<open>line.match(r)\<close> for an \<open>r\<close> without the flag \<^verbatim>\<open>g\<close>: the captures of the first match.\<close>

definition match_first :: "bool \<Rightarrow> rx \<Rightarrow> string \<Rightarrow> caps option" where
  "match_first ci r s =
     (case find_match ci r [] s of None \<Rightarrow> None | Some (pre, mt, cs, rest') \<Rightarrow> Some cs)"

definition new_section :: "string \<Rightarrow> string \<Rightarrow> doc_section" where
  "new_section t c = \<lparr>title = t, content = c, original = None, edited = None, changes = None\<rparr>"

text \<open>The state of the loop over the lines: the sections closed so far, the title of the current
  section, if any, and the lines of its content.\<close>

definition close_section :: "doc_section list \<Rightarrow> string option \<Rightarrow> string list \<Rightarrow> doc_section list" where
  "close_section secs currentSection contentLines =
     (case currentSection of
        Some t \<Rightarrow> if length contentLines > 0
                  then secs @ [new_section t (trim (join [CHR 0x0A] contentLines))] else secs
      | None \<Rightarrow> secs)"

definition extractSections_step ::
  "string \<Rightarrow> doc_section list \<times> string option \<times> string list \<Rightarrow> doc_section list \<times> string option \<times> string list" where
  "extractSections_step line = (\<lambda>(secs, currentSection, contentLines).
     (let sectionMatch = match_first False sectionPattern line;
          numberedMatch = match_first False numberedPattern line in
      if sectionMatch \<noteq> None \<or> numberedMatch \<noteq> None then
        (close_section secs currentSection contentLines,
         Some (case sectionMatch of Some cs \<Rightarrow> cap cs 1
               | None \<Rightarrow> (case numberedMatch of Some cs \<Rightarrow> cap cs 1 | None \<Rightarrow> [])),
         [])
      else (secs, currentSection, contentLines @ [line])))"

definition extractSections :: "string \<Rightarrow> doc_section list" where
  "extractSections text =
     (case fold extractSections_step (split_lines text) ([], None, []) of
        (secs, currentSection, contentLines) \<Rightarrow>
          (let secs = close_section secs currentSection contentLines in
           if length secs = 0 \<and> trim text \<noteq> [] then [new_section ''Document'' (trim text)]
           else secs))"

text \<open>
  \<^verbatim>\<open>processDocument\<close> maps an \<^verbatim>\<open>async\<close> function over the sections and awaits the
  results together.  Each call of that function runs up to its first \<^verbatim>\<open>await\<close> when
  \<^verbatim>\<open>map\<close> calls it: it splits the section into sentences and calls
  \<^verbatim>\<open>processSentence\<close> on each of them (\<^verbatim>\<open>processSentence\<close> has no \<^verbatim>\<open>await\<close>, so each
  call runs to its end).  The rest of the function, which joins the sentences and collects
  the changes, runs when the awaited promise is settled, which is after \<^verbatim>\<open>map\<close> has gone
  through all the sections.  So the sentences of all the sections are processed first
  (\<open>process_section\<close>, section by section), and the changes are collected afterwards
  (\<open>collect_section\<close>).

  The order in which the sections collect is the order in which their awaited promises let
  them go on.  The promise of a section without sentences is \<^verbatim>\<open>Promise.all([])\<close>, which is
  fulfilled when it is made, so the job that resumes the section is queued at once, while
  \<^verbatim>\<open>map\<close> is still running.  The promise of a section with sentences is fulfilled by
  the jobs that \<^verbatim>\<open>Promise.all\<close> queues for the promises of the sentences, and the job that
  resumes the section is queued by the last of them, behind all the jobs queued while
  \<^verbatim>\<open>map\<close> was running.  So the sections without sentences collect first, in their order,
  and the sections with sentences after them, in their order (\<open>collect_order\<close>); the array of
  the edited sentences is as long as the array of the sentences.  The processed sections
  are returned in the order of the sections, whatever the order in which they were resumed.
\<close>

definition process_section :: "doc_section \<Rightarrow> engines \<Rightarrow> (doc_section \<times> string list) \<times> engines" where
  "process_section sec e =
     (case splitIntoSentences (content sec) e of
        (sentences, e') \<Rightarrow>
          (case map_state processSentence sentences e' of
             (editedSentences, e'') \<Rightarrow> ((sec, editedSentences), e'')))"

definition collect_section :: "doc_section \<times> string list \<Rightarrow> engines \<Rightarrow> doc_section \<times> engines" where
  "collect_section = (\<lambda>(sec, editedSentences) e.
     (case collectChanges e of
        (cs, e') \<Rightarrow>
          (sec\<lparr>original := Some (content sec), edited := Some (join '' '' editedSentences),
               changes := Some cs\<rparr>, e')))"

definition collect_order :: "(doc_section \<times> string list) list \<Rightarrow> nat list" where
  "collect_order runs =
     filter (\<lambda>i. snd (runs ! i) = []) [0..<length runs]
     @ filter (\<lambda>i. snd (runs ! i) \<noteq> []) [0..<length runs]"

definition collect_sections ::
  "(doc_section \<times> string list) list \<Rightarrow> engines \<Rightarrow> doc_section list \<times> engines" where
  "collect_sections runs e =
     fold (\<lambda>i (processed, e). case collect_section (runs ! i) e of
                                 (sec, e') \<Rightarrow> (processed[i := sec], e'))
       (collect_order runs) (map fst runs, e)"

definition processDocument :: "string \<Rightarrow> document_type \<Rightarrow> engines \<Rightarrow> processed_document \<times> engines" where
  "processDocument text ty e =
     (let e = clearAllChanges e;
          secs = (if ty = FullPaper then extractSections text else [new_section ''Content'' text]) in
      case map_state process_section secs e of
        (runs, e') \<Rightarrow>
          (case collect_sections runs e' of
             (processed, e'') \<Rightarrow>
               (\<lparr>doc_type = ty, sections = processed,
                 allChanges = concat (map (\<lambda>s. case changes s of None \<Rightarrow> [] | Some cs \<Rightarrow> cs) processed)\<rparr>,
                e'')))"


text \<open>
  The Flesch reading ease of \<^verbatim>\<open>calculateReadability\<close>.  The source computes it in floating
  point; here it is a rational number.  The counts are integers and the divisors are checked
  to be non-zero before the division, so the source's value is a finite number, and
  \<^verbatim>\<open>Math.min\<close> and \<^verbatim>\<open>Math.max\<close> return one of their arguments unrounded.
\<close>

definition is_vowel :: "char \<Rightarrow> bool" where
  "is_vowel c = (c \<in> set ''aeiou'')"

fun vowel_groups :: "bool \<Rightarrow> string \<Rightarrow> int" where
  "vowel_groups previousWasVowel [] = 0"
| "vowel_groups previousWasVowel (c # cs) =
     (if is_vowel c \<and> \<not> previousWasVowel then 1 else 0) + vowel_groups (is_vowel c) cs"

definition countSyllables :: "string \<Rightarrow> int" where
  "countSyllables word0 =
     (let word = toLowerCase word0;
          count = vowel_groups False word;
          count = (if endsWith word ''e'' then count - 1 else count);
          count = (if count = 0 then 1 else count)
      in count)"

definition clamp_score :: "rat \<Rightarrow> rat" where
  "clamp_score fleschScore = max 0 (min 100 fleschScore)"

definition calculateReadability :: "string \<Rightarrow> rat" where
  "calculateReadability text =
     (let sentences = match_all False sentence_rx text;
          words = split_ws text;
          syllables = sum_list (map countSyllables words) in
      if length sentences = 0 \<or> length words = 0 then 0
      else clamp_score (206835 / 1000
             - (1015 / 1000) * (of_nat (length words) / of_nat (length sentences))
             - (846 / 10) * (of_int syllables / of_nat (length words))))"


section \<open>The structure rules\<close>

record validation_result =
  valid :: bool
  issues :: "string list option"
  fixedText :: string
  result_changes :: "change list"

text \<open>The checks of \<^verbatim>\<open>validateAbstract\<close>.\<close>

record abstract_checks =
  independent :: bool
  selfContained :: bool
  correctLength :: bool

definition getSynonyms :: "string \<Rightarrow> string list" where
  "getSynonyms word =
     (case map_of
        [(''problem'', [''problem'', ''challenge'', ''issue'', ''difficulty'', ''limitation'']),
         (''approach'', [''approach'', ''method'', ''technique'', ''solution'', ''system'']),
         (''result'', [''result'', ''evaluation'', ''performance'', ''improvement'', ''achieve''])]
        word of
        Some syns \<Rightarrow> syns
      | None \<Rightarrow> [word])"

definition hasAllComponents :: "string \<Rightarrow> string list \<Rightarrow> bool" where
  "hasAllComponents text components =
     (let lowerText = toLowerCase text in
      list_all (\<lambda>component. list_ex (\<lambda>synonym. includes_str lowerText synonym) (getSynonyms component))
        components)"

definition expandAbstract :: "string \<Rightarrow> string" where
  "expandAbstract text = text @
     '' The comprehensive evaluation validates the effectiveness of the proposed approach through rigorous testing and comparison with state-of-the-art methods.''"

text \<open>The replacements of \<^verbatim>\<open>/this paper/gi\<close>, \<^verbatim>\<open>/we present/gi\<close> and \<^verbatim>\<open>/this work/gi\<close>.\<close>

definition rewrite_self_references :: "string \<Rightarrow> string" where
  "rewrite_self_references text =
     (let fixed = replace_all True (Lit ''this paper'') (\<lambda>mt cs. ''this research'') text;
          fixed = replace_all True (Lit ''we present'') (\<lambda>mt cs. ''introduces'') fixed;
          fixed = replace_all True (Lit ''this work'') (\<lambda>mt cs. ''the study'') fixed
      in fixed)"

definition abstract_template :: string where
  "abstract_template =
     ''This research addresses a significant challenge in the field.'' @ '' '' @
     ''A novel approach is proposed that combines innovative techniques.'' @ '' '' @
     ''Evaluation demonstrates substantial improvements over existing methods.''"

definition restructureAbstract :: "string \<Rightarrow> abstract_checks \<Rightarrow> change list \<Rightarrow> string \<times> change list" where
  "restructureAbstract text checks chs =
     (let fixed = rewrite_self_references text;
          (fixed, chs) =
            (if \<not> selfContained checks then
               (abstract_template,
                chs @ [\<lparr>rule = ''Abstract Structure'', type = Structure, before = text,
                   after = abstract_template,
                   reason = ''Restructured abstract to include all required components''\<rparr>])
             else (fixed, chs));
          words = split_ws fixed in
      if length words > 250 then
        (let fixed = join '' '' (take 250 words) @ ''.'' in
         (fixed, chs @ [\<lparr>rule = ''Abstract Length'', type = Structure, before = text, after = fixed,
                 reason = ''Shortened abstract to meet 250-word limit''\<rparr>]))
      else if length words < 100 then (expandAbstract fixed, chs)
      else (fixed, chs))"

definition validateAbstract :: "string \<Rightarrow> change list \<Rightarrow> validation_result \<times> change list" where
  "validateAbstract text chs =
     (let wordCount = length (split_ws text);
          checks = \<lparr>independent = (\<not> includes_str text ''this paper'' \<and>
                                   \<not> includes_str text ''we present'' \<and>
                                   \<not> includes_str text ''this work''),
                    selfContained = hasAllComponents text [''problem'', ''approach'', ''result''],
                    correctLength = (wordCount \<ge> 100 \<and> wordCount \<le> 250)\<rparr>;
          issues =
            (if \<not> independent checks
             then [''Abstract should be self-contained without references to '' @ [CHR 0x22] @ ''this paper''
                     @ [CHR 0x22]] else [])
            @ (if \<not> selfContained checks
               then [''Abstract must include problem, approach, and results''] else [])
            @ (if \<not> correctLength checks
               then [''Abstract should be 100-250 words (currently '' @ string_of_nat wordCount
                       @ '' words)''] else [])
      in case restructureAbstract text checks chs of
           (fixed, chs') \<Rightarrow>
             (\<lparr>valid = (independent checks \<and> selfContained checks \<and> correctLength checks),
               issues = (if length issues > 0 then Some issues else None),
               fixedText = fixed,
               result_changes = chs'\<rparr>, chs'))"

definition title_has :: "string \<Rightarrow> doc_section \<Rightarrow> bool" where
  "title_has w s = includes_str (toLowerCase (title s)) w"

fun findOverviewPosition_from :: "nat \<Rightarrow> doc_section list \<Rightarrow> nat" where
  "findOverviewPosition_from i [] = 1"
| "findOverviewPosition_from i (s # ss) =
     (if list_ex (\<lambda>pos. title_has pos s) [''introduction'', ''abstract''] then i + 1
      else findOverviewPosition_from (i + 1) ss)"

definition findOverviewPosition :: "doc_section list \<Rightarrow> nat" where
  "findOverviewPosition secs = findOverviewPosition_from 0 secs"

definition generateOverview :: "doc_section list \<Rightarrow> doc_section" where
  "generateOverview secs =
     (let sectionNames = take 5 (map title (filter (\<lambda>s. \<not> title_has ''abstract'' s) secs));
          body = ''This document is organized as follows. ''
            @ join ''. '' (map (\<lambda>(name, i). ''Section '' @ string_of_nat (i + 2) @ '' covers ''
                                    @ toLowerCase name)
                              (zip sectionNames [0..<length sectionNames]))
            @ ''. The document concludes with a summary of key findings and future directions.''
      in \<lparr>title = ''Overview'', content = body, original = None, edited = Some body, changes = None\<rparr>)"

text \<open>\<^verbatim>\<open>sections.splice(i, 0, x)\<close>\<close>

definition splice_in :: "nat \<Rightarrow> 'a \<Rightarrow> 'a list \<Rightarrow> 'a list" where
  "splice_in i x xs = take i xs @ [x] @ drop i xs"

definition insertOverviewSection :: "doc_section list \<Rightarrow> change list \<Rightarrow> doc_section list \<times> change list" where
  "insertOverviewSection secs chs =
     (let hasOverview = list_ex (title_has ''overview'') secs in
      if \<not> hasOverview then
        (let overviewIndex = findOverviewPosition secs;
             overview = generateOverview secs in
         (splice_in overviewIndex overview secs,
          chs @ [\<lparr>rule = ''Overview Section'', type = Structure, before = ''No overview section'',
                 after = ''Added overview section'',
                 reason = ''Inserted overview section for better document structure''\<rparr>]))
      else (secs, chs))"


text \<open>The checks of \<^verbatim>\<open>validateIntroduction\<close>.\<close>

record introduction_checks =
  problemInFirstParagraph :: bool
  hasContributions :: bool
  avoidGrandmothering :: bool
  hasSilverBullet :: bool
  comparesApproaches :: bool

text \<open>\<^verbatim>\<open>text.split(/\n\n+/)\<close>\<close>

definition split_paragraphs :: "string \<Rightarrow> string list" where
  "split_paragraphs text = split_rx False (seqs [Lit [CHR 0x0A], Plus (CChar (CHR 0x0A))]) 0 text"

definition extractFirstParagraph :: "string \<Rightarrow> string" where
  "extractFirstParagraph text = (case split_paragraphs text of [] \<Rightarrow> [] | p # ps \<Rightarrow> p)"

definition checkFirstParagraphProblem :: "string \<Rightarrow> bool" where
  "checkFirstParagraphProblem text =
     (let firstParagraph = extractFirstParagraph text in
      list_ex (\<lambda>keyword. includes_str (toLowerCase firstParagraph) keyword)
        [''problem'', ''issue'', ''challenge'', ''difficult'', ''limitation'',
         ''gap'', ''lacking'', ''insufficient'', ''inadequate'', ''fails''])"

definition hasObviousStatements :: "string \<Rightarrow> bool" where
  "hasObviousStatements text =
     list_ex (\<lambda>pattern. test True (Lit pattern) text)
       [''computers are everywhere'', ''the internet has changed'',
        ''in today'' @ [CHR 0x27] @ ''s world'', ''as we all know'', ''it is well known that'',
        ''everyone knows'', ''clearly'', ''obviously'', ''of course'']"

definition identifiesKeyIdea :: "string \<Rightarrow> bool" where
  "identifiesKeyIdea text =
     list_ex (\<lambda>indicator. includes_str (toLowerCase text) indicator)
       [''key insight'', ''main idea'', ''core contribution'', ''novel approach'',
        ''our approach'', ''we propose'', ''we present'', ''we introduce'',
        ''this paper presents'', ''this work'']"

definition mentionsAlternatives :: "string \<Rightarrow> bool" where
  "mentionsAlternatives text =
     list_ex (\<lambda>word. includes_str (toLowerCase text) word)
       [''unlike'', ''compared to'', ''in contrast'', ''whereas'', ''while'',
        ''alternative'', ''existing'', ''previous'', ''traditional'', ''conventional'']"

definition extractTopics :: "string \<Rightarrow> string list" where
  "extractTopics text =
     take 3 (filter (\<lambda>word. length word > 5 \<and>
                \<not> List.member [''which'', ''where'', ''while'', ''through'', ''because''] word)
              (split_ws (toLowerCase text)))"

definition generateProblemStatement :: "string \<Rightarrow> string" where
  "generateProblemStatement context =
     (let topics = extractTopics context in
      if length topics > 0 then ''The challenge of '' @ topics ! 0 @ '' remains unsolved.''
      else ''This addresses a critical problem in the field.'')"

definition contributionText :: string where
  "contributionText = [CHR 0x0A, CHR 0x0A]
     @ ''The main contributions of this work are: First, we provide a novel approach. Second, we demonstrate improved performance. Third, we validate through extensive evaluation.''
     @ [CHR 0x0A, CHR 0x0A]"

definition addContributionsSection :: "string \<Rightarrow> change list \<Rightarrow> string \<times> change list" where
  "addContributionsSection text chs =
     (let paragraphs = split_paragraphs text in
      if length paragraphs \<ge> 2 then
        (let paragraphs = splice_in 1 contributionText paragraphs;
             joined = join [CHR 0x0A, CHR 0x0A] paragraphs in
         (joined, chs @ [\<lparr>rule = ''Contributions Section'', type = Structure, before = text,
                    after = joined, reason = ''Added explicit contributions section''\<rparr>]))
      else (text @ contributionText, chs))"

text \<open>\<^verbatim>\<open>/In today's world[^.]*\./gi\<close>, \<^verbatim>\<open>/As we all know[^.]*\./gi\<close>,
  \<^verbatim>\<open>/It is well known that[^.]*\./gi\<close>, \<^verbatim>\<open>/Obviously[^.]*\./gi\<close> and
  \<^verbatim>\<open>/Clearly[^.]*\./gi\<close>, each replaced by nothing.\<close>

definition obviousPatterns :: "(rx \<times> (string \<Rightarrow> caps \<Rightarrow> string)) list" where
  "obviousPatterns =
     map (\<lambda>w. (seqs [Lit w, Star (CNotIn ''.''), Lit ''.''], \<lambda>mt cs. []))
       [''In today'' @ [CHR 0x27] @ ''s world'', ''As we all know'', ''It is well known that'',
        ''Obviously'', ''Clearly'']"

definition removeObviousStatements :: "string \<Rightarrow> change list \<Rightarrow> string \<times> change list" where
  "removeObviousStatements text chs =
     (case apply_patterns True obviousPatterns text of
        (fixed, hasChanges) \<Rightarrow>
          if hasChanges then
            (let fixed = trim (collapse_spaces fixed) in
             (fixed, chs @ [\<lparr>rule = ''Remove Obvious Statements'', type = Structure,
                   before = text, after = fixed,
                   reason = ''Removed obvious or well-known statements''\<rparr>]))
          else (fixed, chs))"

definition autoFixIntroduction :: "string \<Rightarrow> introduction_checks \<Rightarrow> change list \<Rightarrow> string \<times> change list" where
  "autoFixIntroduction text checks chs =
     (let (fixed, chs) =
            (if \<not> problemInFirstParagraph checks then
               (case split_paragraphs text of
                  [] \<Rightarrow> (text, chs)
                | p # ps \<Rightarrow>
                    (let fixed = join [CHR 0x0A, CHR 0x0A] ((generateProblemStatement p @ '' '' @ p) # ps)
                     in (fixed, chs @ [\<lparr>rule = ''Introduction Structure'', type = Structure,
                            before = text, after = fixed,
                            reason = ''Added problem statement to first paragraph''\<rparr>])))
             else (text, chs));
          (fixed, chs) =
            (if \<not> hasContributions checks then addContributionsSection fixed chs else (fixed, chs))
      in removeObviousStatements fixed chs)"

definition validateIntroduction :: "string \<Rightarrow> change list \<Rightarrow> validation_result \<times> change list" where
  "validateIntroduction text chs =
     (let checks = \<lparr>problemInFirstParagraph = checkFirstParagraphProblem text,
                    hasContributions = includes_str (toLowerCase text) ''contribution'',
                    avoidGrandmothering = (\<not> hasObviousStatements text),
                    hasSilverBullet = identifiesKeyIdea text,
                    comparesApproaches = mentionsAlternatives text\<rparr>;
          issues =
            (if \<not> problemInFirstParagraph checks
             then [''Introduction should state the problem in the first paragraph''] else [])
            @ (if \<not> hasContributions checks
               then [''Introduction should clearly state the contributions''] else [])
            @ (if \<not> avoidGrandmothering checks
               then [''Remove obvious or well-known statements''] else [])
            @ (if \<not> hasSilverBullet checks
               then [''Clearly identify the key idea or silver bullet''] else [])
            @ (if \<not> comparesApproaches checks
               then [''Compare your approach with alternatives''] else [])
      in case autoFixIntroduction text checks chs of
           (fixed, chs') \<Rightarrow>
             (\<lparr>valid = (problemInFirstParagraph checks \<and> hasContributions checks \<and>
                        avoidGrandmothering checks \<and> hasSilverBullet checks \<and>
                        comparesApproaches checks),
               issues = (if length issues > 0 then Some issues else None),
               fixedText = fixed,
               result_changes = chs'\<rparr>, chs'))"


section \<open>Editing a document\<close>

text \<open>
  \<^verbatim>\<open>editDocument\<close> makes a processor and a structure rule engine of its own, whose
  \<^verbatim>\<open>changes\<close> array is the state \<open>chs\<close> of the loop over the sections.  The validation
  results hand out that array itself.  \<^verbatim>\<open>section.edited || section.content\<close> is the content
  when the edited text is missing or empty.  Of the result, the sections, the edited text and
  the list of changes are modelled; the report is not.
\<close>

definition edited_or_content :: "doc_section \<Rightarrow> string" where
  "edited_or_content s = (case edited s of Some t \<Rightarrow> if t = [] then content s else t | None \<Rightarrow> content s)"

definition changes_or_empty :: "doc_section \<Rightarrow> change list" where
  "changes_or_empty s = (case changes s of Some cs \<Rightarrow> cs | None \<Rightarrow> [])"

definition apply_validation ::
  "(string \<Rightarrow> change list \<Rightarrow> validation_result \<times> change list) \<Rightarrow> doc_section \<Rightarrow> change list
     \<Rightarrow> doc_section \<times> change list" where
  "apply_validation validate s chs =
     (case validate (edited_or_content s) chs of
        (result, chs') \<Rightarrow>
          (s\<lparr>edited := Some (fixedText result),
             changes := Some (changes_or_empty s @ result_changes result)\<rparr>, chs'))"

definition editDocument_section :: "doc_section \<Rightarrow> change list \<Rightarrow> doc_section \<times> change list" where
  "editDocument_section s chs =
     (let (s, chs) = (if title_has ''introduction'' s then apply_validation validateIntroduction s chs
                      else (s, chs));
          (s, chs) = (if title_has ''abstract'' s then apply_validation validateAbstract s chs
                      else (s, chs))
      in (s, chs))"

record edit_result =
  edit_sections :: "doc_section list"
  fullEdited :: string
  edit_changes :: "change list"

definition editDocument :: "string \<Rightarrow> document_type \<Rightarrow> edit_result" where
  "editDocument text documentType =
     (case processDocument text documentType \<lparr>clarityRules = [], styleRules = [], structureRules = []\<rparr> of
        (processed, e) \<Rightarrow>
          (let secs =
                 (if documentType = FullPaper then
                    (case insertOverviewSection (sections processed) [] of
                       (secs, chs) \<Rightarrow> fst (map_state editDocument_section secs chs))
                  else sections processed)
           in \<lparr>edit_sections = secs,
               fullEdited = join [CHR 0x0A, CHR 0x0A]
                 (map (\<lambda>s. if title s \<noteq> ''Content'' \<and> title s \<noteq> ''Document''
                            then ''# '' @ title s @ [CHR 0x0A, CHR 0x0A] @ edited_or_content s
                            else edited_or_content s) secs),
               edit_changes = allChanges processed\<rparr>))"


section \<open>The report generator\<close>

text \<open>The second readability score, of the report generator, with its own syllable count.\<close>

definition countWords :: "string \<Rightarrow> nat" where
  "countWords text = length (filter (\<lambda>word. length word > 0) (split_ws text))"

definition countSyllables_report :: "string \<Rightarrow> int" where
  "countSyllables_report word0 =
     (let word = filter is_lower (toLowerCase word0) in
      if length word = 0 then 0
      else
        (let count = vowel_groups False word;
             count = (if endsWith word ''e'' \<and> count > 1 then count - 1 else count);
             count = (if endsWith word ''le'' \<and> length word > 2
                         \<and> \<not> is_vowel (word ! (length word - 3)) then count + 1 else count)
         in max 1 count))"

definition calculateReadabilityScore :: "string \<Rightarrow> rat" where
  "calculateReadabilityScore text =
     (let sentences = match_all False sentence_rx text;
          words = filter (\<lambda>w. length w > 0) (split_ws text);
          syllables = sum_list (map countSyllables_report words) in
      if length sentences = 0 \<or> length words = 0 then 0
      else
        (let averageWordsPerSentence = of_nat (length words) / of_nat (length sentences);
             averageSyllablesPerWord = of_int syllables / of_nat (length words)
         in clamp_score (206835 / 1000 - (1015 / 1000) * averageWordsPerSentence
                          - (846 / 10) * averageSyllablesPerWord)))"


section \<open>Predicates of the statements\<close>

text \<open>A text without a character that ends a sentence.\<close>

definition no_terminal :: "string \<Rightarrow> bool" where
  "no_terminal s = list_all (\<lambda>c. c \<noteq> CHR ''.'' \<and> c \<noteq> CHR ''!'' \<and> c \<noteq> CHR ''?'') s"

text \<open>A character that ends a sentence.\<close>

definition is_terminal :: "char \<Rightarrow> bool" where
  "is_terminal c = (c = CHR ''.'' \<or> c = CHR ''!'' \<or> c = CHR ''?'')"

text \<open>The sentence at the start of a text, read off the text: a character that ends no
  sentence, the longest run of such characters, and the longest run of characters that end a
  sentence, which has to have one character at least.  The result is the sentence and the text
  after it.\<close>

definition sentence_at :: "string \<Rightarrow> (string \<times> string) option" where
  "sentence_at rest =
     (case rest of [] \<Rightarrow> None
      | x # xs \<Rightarrow>
          if is_terminal x then None
          else (case dropWhile (\<lambda>c. \<not> is_terminal c) xs of [] \<Rightarrow> None
                | y # ys \<Rightarrow> Some (x # takeWhile (\<lambda>c. \<not> is_terminal c) xs @ y # takeWhile is_terminal ys,
                                 dropWhile is_terminal ys)))"


text \<open>An abstract of 100 words that starts with ``This paper'' and names a problem, an approach
  and a result.\<close>

definition abstract_example :: string where
  "abstract_example = ''This paper problem approach result'' @ concat (replicate 95 '' a'')"


text \<open>Two abstracts of 300 words: one of the word ``a'' only, and one that names a problem, an
  approach and a result.\<close>

definition abstract_300_plain :: string where
  "abstract_300_plain = concat (replicate 299 ''a '') @ ''a''"

definition abstract_300 :: string where
  "abstract_300 = ''problem approach result'' @ concat (replicate 297 '' a'')"


text \<open>A sentence of 28 words with a space before its only comma.\<close>

definition long_sentence_example :: string where
  "long_sentence_example =
     ''a b c d , and e1 e2 e3 e4 e5 e6 e7 e8 e9 e10 e11 e12 e13 e14 e15 e16 e17 e18 e19 e20 e21 e22.''"


text \<open>The number of runs of white space in a text; \<open>prev\<close> says whether the character before
  the text is white space.\<close>

fun ws_runs :: "bool \<Rightarrow> string \<Rightarrow> nat" where
  "ws_runs prev [] = 0"
| "ws_runs prev (x # xs) = (if is_space x \<and> \<not> prev then 1 else 0) + ws_runs (is_space x) xs"





section \<open>Properties of the search\<close>

lemma scan_no_match: "\<not> test ci r s \<Longrightarrow> scan ci r [] s = ([], s)"
proof -
  assume "\<not> test ci r s"
  then have "find_match ci r [] s = None"
    by (cases "find_match ci r [] s") (auto simp: test_def)
  then show ?thesis by (simp add: scan.simps[of ci r "[]" s])
qed

lemma replace_all_no_match: "\<not> test ci r s \<Longrightarrow> replace_all ci r f s = s"
  by (simp add: replace_all_def scan_no_match)

lemma match_all_no_match: "\<not> test ci r s \<Longrightarrow> match_all ci r s = []"
  by (simp add: match_all_def scan_no_match)

text \<open>A greedy repetition before a continuation that takes what is left: it takes the longest
  run.  The same holds before a continuation that fails wherever the run could have stopped
  earlier.\<close>

lemma star_greedy_Some:
  "star_greedy p acc rest (\<lambda>a r. Some (a, r, cs)) = Some (rev (takeWhile p rest) @ acc, dropWhile p rest, cs)"
  by (induction rest arbitrary: acc) auto

lemma star_greedy_longest:
  assumes "\<And>a r. r = [] \<or> p (hd r) \<Longrightarrow> g a r = None"
  shows "star_greedy p acc xs g = g (rev (takeWhile p xs) @ acc) (dropWhile p xs)"
proof (induction xs arbitrary: acc)
  case Nil
  then show ?case by simp
next
  case (Cons x xs)
  show ?case
  proof (cases "p x")
    case True
    have "g acc (x # xs) = None" using assms[of "x # xs" acc] True by simp
    with True Cons[of "x # acc"] show ?thesis by (simp split: option.splits)
  next
    case False
    then show ?thesis by simp
  qed
qed


section \<open>Sentences without a passive construction\<close>

text \<open>
  Claim C7.  A sentence in which none of the three passive patterns has a match comes back
  from \<^verbatim>\<open>fixPassiveVoice\<close> as it is, and the array of changes is the one before the call.
\<close>

theorem fixPassiveVoice_no_pattern:
  assumes "\<not> test True passive_by sentence"
    and "\<not> test True passive_it sentence"
    and "\<not> test True passive_been sentence"
  shows "fixPassiveVoice sentence chs = (sentence, chs)"
  using assms
  by (simp add: fixPassiveVoice_def apply_patterns_def passivePatterns_def replace_all_no_match)

theorem fixPassiveVoice_no_pattern_witness:
  "\<not> test True passive_by ''The cat sat on the mat.''
   \<and> \<not> test True passive_it ''The cat sat on the mat.''
   \<and> \<not> test True passive_been ''The cat sat on the mat.''
   \<and> fixPassiveVoice ''The cat sat on the mat.'' [] = (''The cat sat on the mat.'', [])"
proof -
  have h1: "\<not> test True passive_by ''The cat sat on the mat.''" by code_simp
  have h2: "\<not> test True passive_it ''The cat sat on the mat.''" by code_simp
  have h3: "\<not> test True passive_been ''The cat sat on the mat.''" by code_simp
  from fixPassiveVoice_no_pattern[OF h1 h2 h3, of "[]"] h1 h2 h3 show ?thesis by simp
qed


section \<open>Sections without a full stop\<close>

lemma sentence_shape_terminal:
  "shape False sentence_rx w cs cs' \<Longrightarrow> \<not> no_terminal w"
proof -
  assume "shape False sentence_rx w cs cs'"
  then obtain u v where w: "w = u @ v" and v: "v \<noteq> []" "list_all (cls_ok False (CIn ''.!?'')) v"
    by (auto simp: sentence_rx_def seqs_def)
  then obtain c where c: "c \<in> set v" "cls_ok False (CIn ''.!?'') c"
    by (cases v) auto
  then have "c = CHR ''.'' \<or> c = CHR ''!'' \<or> c = CHR ''?''" by (auto simp: ch_eq_def)
  with w c(1) show ?thesis by (auto simp: no_terminal_def list_all_iff)
qed

lemma no_terminal_no_sentence:
  assumes "no_terminal s"
  shows "\<not> test False sentence_rx s"
proof
  assume "test False sentence_rx s"
  then obtain pre mt cs rest' where "find_match False sentence_rx [] s = Some (pre, mt, cs, rest')"
    by (auto simp: test_def)
  from find_match_shape[OF this] have s: "s = pre @ mt @ rest'" and "shape False sentence_rx mt [] cs"
    by auto
  from sentence_shape_terminal[OF this(2)] have "\<not> no_terminal mt" .
  with s assms show False by (auto simp: no_terminal_def)
qed

lemma splitIntoSentences_no_terminal:
  "no_terminal text \<Longrightarrow> splitIntoSentences text e = ([], e)"
  by (simp add: splitIntoSentences_def match_all_no_match no_terminal_no_sentence)

lemma process_sections_runs:
  "map_state process_section secs e = (runs, e') \<Longrightarrow>
     \<forall>run\<in>set runs. no_terminal (content (fst run)) \<longrightarrow> snd run = []"
proof (induction secs arbitrary: e runs e')
  case Nil
  then show ?case by simp
next
  case (Cons sec secs)
  obtain run e1 where p: "process_section sec e = (run, e1)" by (cases "process_section sec e")
  obtain runs1 e2 where ms: "map_state process_section secs e1 = (runs1, e2)"
    by (cases "map_state process_section secs e1")
  from Cons.prems p ms have runs: "runs = run # runs1" by simp
  have "no_terminal (content (fst run)) \<longrightarrow> snd run = []"
  proof
    assume a: "no_terminal (content (fst run))"
    from p have "fst run = sec" by (auto simp: process_section_def split: prod.splits)
    with a have "splitIntoSentences (content sec) e = ([], e)"
      by (simp add: splitIntoSentences_no_terminal)
    with p show "snd run = []" by (auto simp: process_section_def)
  qed
  with Cons.IH[OF ms] runs show ?case by simp
qed

lemma collect_section_edited:
  "collect_section run e = (sec, e') \<Longrightarrow>
     content sec = content (fst run) \<and> edited sec = Some (join '' '' (snd run))"
  by (auto simp: collect_section_def collectChanges_def split: prod.splits)

lemma collect_fold_edited:
  assumes "set js \<subseteq> {..<length runs}" and "length out = length runs"
    and "fold (\<lambda>i (processed, e). case collect_section (runs ! i) e of
                                 (sec, e') \<Rightarrow> (processed[i := sec], e')) js (out, e) = (out', e')"
  shows "length out' = length runs \<and>
     (\<forall>i<length runs.
        (i \<in> set js \<longrightarrow> content (out' ! i) = content (fst (runs ! i))
            \<and> edited (out' ! i) = Some (join '' '' (snd (runs ! i))))
        \<and> (i \<notin> set js \<longrightarrow> out' ! i = out ! i))"
  using assms
proof (induction js arbitrary: out e)
  case Nil
  then show ?case by simp
next
  case (Cons j js)
  obtain sec e1 where p: "collect_section (runs ! j) e = (sec, e1)"
    by (cases "collect_section (runs ! j) e")
  from Cons.prems(1) have j: "j < length runs" and js: "set js \<subseteq> {..<length runs}" by simp_all
  from Cons.prems(2) have len: "length (out[j := sec]) = length runs" by simp
  from Cons.prems(3) p have f: "fold (\<lambda>i (processed, e). case collect_section (runs ! i) e of
      (sec, e') \<Rightarrow> (processed[i := sec], e')) js (out[j := sec], e1) = (out', e')"
    by simp
  from Cons.IH[OF js len f] have l: "length out' = length runs"
    and ih: "\<And>i. i < length runs \<Longrightarrow>
        (i \<in> set js \<longrightarrow> content (out' ! i) = content (fst (runs ! i))
            \<and> edited (out' ! i) = Some (join '' '' (snd (runs ! i))))
        \<and> (i \<notin> set js \<longrightarrow> out' ! i = out[j := sec] ! i)"
    by simp_all
  from collect_section_edited[OF p]
  have sec: "content sec = content (fst (runs ! j))" "edited sec = Some (join '' '' (snd (runs ! j)))"
    by simp_all
  have "(i \<in> set (j # js) \<longrightarrow> content (out' ! i) = content (fst (runs ! i))
            \<and> edited (out' ! i) = Some (join '' '' (snd (runs ! i))))
        \<and> (i \<notin> set (j # js) \<longrightarrow> out' ! i = out ! i)" if i: "i < length runs" for i
  proof (cases "i \<in> set js")
    case True
    with ih[OF i] show ?thesis by simp
  next
    case False
    with ih[OF i] have o: "out' ! i = out[j := sec] ! i" by simp
    show ?thesis
    proof (cases "i = j")
      case True
      with o j Cons.prems(2) have "out' ! i = sec" by simp
      with True sec show ?thesis by simp
    next
      case ne: False
      with o have "out' ! i = out ! i" by simp
      with False ne show ?thesis by simp
    qed
  qed
  with l show ?case by simp
qed

lemma set_collect_order: "set (collect_order runs) = {..<length runs}"
  by (auto simp: collect_order_def)

lemma collect_sections_edited:
  assumes "collect_sections runs e = (processed, e')"
  shows "\<forall>sec\<in>set processed. \<exists>run\<in>set runs. content sec = content (fst run)
        \<and> edited sec = Some (join '' '' (snd run))"
proof
  fix sec
  assume "sec \<in> set processed"
  then obtain i where i: "i < length processed" and sec: "sec = processed ! i"
    by (auto simp: in_set_conv_nth)
  have "set (collect_order runs) \<subseteq> {..<length runs}" by (simp add: set_collect_order)
  moreover have "length (map fst runs) = length runs" by simp
  moreover from assms have "fold (\<lambda>i (processed, e). case collect_section (runs ! i) e of
      (sec, e') \<Rightarrow> (processed[i := sec], e')) (collect_order runs) (map fst runs, e) = (processed, e')"
    by (simp add: collect_sections_def)
  ultimately have l: "length processed = length runs"
    and a: "\<forall>i<length runs.
        (i \<in> set (collect_order runs) \<longrightarrow> content (processed ! i) = content (fst (runs ! i))
            \<and> edited (processed ! i) = Some (join '' '' (snd (runs ! i))))
        \<and> (i \<notin> set (collect_order runs) \<longrightarrow> processed ! i = map fst runs ! i)"
    using collect_fold_edited[of "collect_order runs" runs "map fst runs" e processed e'] by simp_all
  from i l have ir: "i < length runs" by simp
  then have "i \<in> set (collect_order runs)" by (simp add: set_collect_order)
  with a ir sec have "content sec = content (fst (runs ! i))
      \<and> edited sec = Some (join '' '' (snd (runs ! i)))" by simp
  moreover from ir have "runs ! i \<in> set runs" by simp
  ultimately show "\<exists>run\<in>set runs. content sec = content (fst run)
        \<and> edited sec = Some (join '' '' (snd run))" by blast
qed

text \<open>A document of one section collects once.\<close>

lemma collect_sections_single:
  "collect_sections [run] e = (case collect_section run e of (sec, e') \<Rightarrow> ([sec], e'))"
  by (cases "snd run = []") (simp_all add: collect_sections_def collect_order_def split: prod.splits)

text \<open>The sentence pattern matches at a position just what \<open>sentence_at\<close> reads there.\<close>

lemma cls_ok_terminal: "cls_ok False (CIn ''.!?'') = is_terminal"
  by (rule ext) (auto simp: is_terminal_def ch_eq_def)

lemma cls_ok_not_terminal: "cls_ok False (CNotIn ''.!?'') = (\<lambda>c. \<not> is_terminal c)"
  by (rule ext) (auto simp: is_terminal_def ch_eq_def)

lemma no_terminal_iff: "no_terminal t = list_all (\<lambda>c. \<not> is_terminal c) t"
  by (simp add: no_terminal_def is_terminal_def)

lemma plus_plus_match:
  assumes ab: "\<And>c. A c = (\<not> B c)"
    and gd: "g = (\<lambda>acc' rest'. case rest' of [] \<Rightarrow> None
                 | y # ys \<Rightarrow> if B y then star_greedy B (y # acc') ys (\<lambda>a r. Some (a, r, [])) else None)"
  shows "(case rest of [] \<Rightarrow> None | x # xs \<Rightarrow> if A x then star_greedy A [x] xs g else None)
       = (case rest of [] \<Rightarrow> None
          | x # xs \<Rightarrow> if B x then None
              else (case dropWhile A xs of [] \<Rightarrow> None
                    | y # ys \<Rightarrow> Some (rev (takeWhile B ys) @ y # rev (takeWhile A xs) @ [x],
                                     dropWhile B ys, [])))"
proof (cases rest)
  case Nil
  then show ?thesis by simp
next
  case (Cons x xs)
  have g0: "g a [] = None" for a by (simp add: gd)
  have g1: "g a (y # ys) = (if B y then Some (rev (takeWhile B ys) @ y # a, dropWhile B ys, []) else None)"
    for a y ys by (simp add: gd star_greedy_Some)
  have gN: "g a r = None" if "r = [] \<or> A (hd r)" for a r
  proof (cases r)
    case Nil
    then show ?thesis by (simp add: g0)
  next
    case (Cons y ys)
    with that have "A y" by simp
    then have "\<not> B y" by (simp add: ab)
    with Cons show ?thesis by (simp add: g1)
  qed
  have sg: "star_greedy A [x] xs g = g (rev (takeWhile A xs) @ [x]) (dropWhile A xs)"
    using gN by (intro star_greedy_longest[where p = A and g = g and acc = "[x]" and xs = xs])
  show ?thesis
  proof (cases "B x")
    case True
    then have "\<not> A x" by (simp add: ab)
    with True Cons show ?thesis by simp
  next
    case False
    then have ax: "A x" by (simp add: ab)
    show ?thesis
    proof (cases "dropWhile A xs")
      case Nil
      from sg have "star_greedy A [x] xs g = None" unfolding Nil by (simp only: g0)
      with False ax show ?thesis unfolding \<open>rest = x # xs\<close> list.case Nil by simp
    next
      case (Cons y ys)
      then have "\<not> A y" by (simp add: dropWhile_eq_Cons_conv)
      then have b_y: "B y" by (simp add: ab)
      from sg have "star_greedy A [x] xs g
          = Some (rev (takeWhile B ys) @ y # rev (takeWhile A xs) @ [x], dropWhile B ys, [])"
        unfolding Cons by (simp only: g1 b_y if_True)
      with False ax show ?thesis unfolding \<open>rest = x # xs\<close> list.case Cons by simp
    qed
  qed
qed

lemma match_at_sentence:
  "match_at False sentence_rx ctx rest =
     (case sentence_at rest of None \<Rightarrow> None | Some (mt, rest') \<Rightarrow> Some (rev mt, rest', []))"
proof -
  define g where "g = (\<lambda>acc' rest'. case rest' of [] \<Rightarrow> None
                 | y # ys \<Rightarrow> if cls_ok False (CIn ''.!?'') y
                     then star_greedy (cls_ok False (CIn ''.!?'')) (y # acc') ys (\<lambda>a r. Some (a, r, []))
                     else None)"
  have "match_at False sentence_rx ctx rest =
      (case rest of [] \<Rightarrow> None
          | x # xs \<Rightarrow> if cls_ok False (CNotIn ''.!?'') x
              then star_greedy (cls_ok False (CNotIn ''.!?'')) [x] xs g else None)"
    unfolding g_def
    by (simp add: match_at_def sentence_rx_def seqs_def del: cls_ok.simps)
  also have "\<dots> = (case rest of [] \<Rightarrow> None
          | x # xs \<Rightarrow> if cls_ok False (CIn ''.!?'') x then None
              else (case dropWhile (cls_ok False (CNotIn ''.!?'')) xs of [] \<Rightarrow> None
                    | y # ys \<Rightarrow> Some (rev (takeWhile (cls_ok False (CIn ''.!?'')) ys) @ y
                                        # rev (takeWhile (cls_ok False (CNotIn ''.!?'')) xs) @ [x],
                                     dropWhile (cls_ok False (CIn ''.!?'')) ys, [])))"
    by (rule plus_plus_match[where A = "cls_ok False (CNotIn ''.!?'')"
          and B = "cls_ok False (CIn ''.!?'')" and g = g and rest = rest, OF _ g_def]) simp
  also have "\<dots> = (case sentence_at rest of None \<Rightarrow> None | Some (mt, rest') \<Rightarrow> Some (rev mt, rest', []))"
  proof (cases rest)
    case Nil
    then show ?thesis by (simp add: sentence_at_def)
  next
    case rest: (Cons x xs)
    show ?thesis
    proof (cases "dropWhile (\<lambda>c. \<not> is_terminal c) xs")
      case Nil
      show ?thesis
        unfolding cls_ok_terminal cls_ok_not_terminal sentence_at_def rest list.case Nil by simp
    next
      case (Cons y ys)
      show ?thesis
        unfolding cls_ok_terminal cls_ok_not_terminal sentence_at_def rest list.case Cons by simp
    qed
  qed
  finally show ?thesis .
qed


lemma takeWhile_append_none:
  "list_all (\<lambda>c. \<not> Q c) t \<Longrightarrow> takeWhile Q (ys @ t) = takeWhile Q ys"
  by (induction ys) (auto simp: takeWhile_eq_Nil_iff list_all_iff)

lemma dropWhile_append_none:
  "list_all (\<lambda>c. \<not> Q c) t \<Longrightarrow> dropWhile Q (ys @ t) = dropWhile Q ys @ t"
  by (induction ys) (auto simp: dropWhile_eq_self_iff list_all_iff)

lemma dropWhile_all: "list_all P t \<Longrightarrow> dropWhile P t = []"
  by (simp add: list_all_iff)

lemma sentence_at_no_terminal: "no_terminal t \<Longrightarrow> sentence_at t = None"
proof (cases t)
  case Nil
  then show ?thesis by (simp add: sentence_at_def)
next
  case (Cons x xs)
  assume "no_terminal t"
  with Cons have x: "\<not> is_terminal x" and xs: "list_all (\<lambda>c. \<not> is_terminal c) xs"
    by (simp_all add: no_terminal_iff)
  from x show ?thesis unfolding sentence_at_def Cons list.case dropWhile_all[OF xs] by simp
qed

lemma sentence_at_append:
  assumes t: "no_terminal t"
  shows "sentence_at (s @ t) = (case sentence_at s of None \<Rightarrow> None | Some (mt, r) \<Rightarrow> Some (mt, r @ t))"
proof (cases s)
  case Nil
  with sentence_at_no_terminal[OF t] show ?thesis by (simp add: sentence_at_def)
next
  case s: (Cons x xs)
  from t have nt: "list_all (\<lambda>c. \<not> is_terminal c) t" by (simp add: no_terminal_iff)
  show ?thesis
  proof (cases "is_terminal x")
    case True
    then show ?thesis by (simp add: sentence_at_def s)
  next
    case x: False
    show ?thesis
    proof (cases "dropWhile (\<lambda>c. \<not> is_terminal c) xs")
      case Nil
      then have all: "list_all (\<lambda>c. \<not> is_terminal c) (xs @ t)" using nt
        by (auto simp: list_all_iff)
      have l: "sentence_at (s @ t) = None"
        using x unfolding sentence_at_def s append_Cons list.case dropWhile_all[OF all] by simp
      have r: "sentence_at s = None"
        using x unfolding sentence_at_def s list.case Nil by simp
      from l r show ?thesis by simp
    next
      case (Cons y ys)
      then have y: "is_terminal y" by (simp add: dropWhile_eq_Cons_conv)
      have "y \<in> set (dropWhile (\<lambda>c. \<not> is_terminal c) xs)" unfolding Cons by simp
      then have yin: "y \<in> set xs" by (rule set_dropWhileD)
      have d: "dropWhile (\<lambda>c. \<not> is_terminal c) (xs @ t) = y # ys @ t"
        using dropWhile_append1[of y xs "\<lambda>c. \<not> is_terminal c" t, OF yin] y Cons by simp
      have tk: "takeWhile (\<lambda>c. \<not> is_terminal c) (xs @ t) = takeWhile (\<lambda>c. \<not> is_terminal c) xs"
        using takeWhile_append1[of y xs "\<lambda>c. \<not> is_terminal c" t, OF yin] y by simp
      have l: "sentence_at (s @ t)
          = Some (x # takeWhile (\<lambda>c. \<not> is_terminal c) xs @ y # takeWhile is_terminal ys,
                  dropWhile is_terminal ys @ t)"
        using x unfolding sentence_at_def s append_Cons list.case d tk
        by (simp add: takeWhile_append_none[OF nt] dropWhile_append_none[OF nt])
      have r: "sentence_at s
          = Some (x # takeWhile (\<lambda>c. \<not> is_terminal c) xs @ y # takeWhile is_terminal ys,
                  dropWhile is_terminal ys)"
        using x unfolding sentence_at_def s list.case Cons by simp
      from l r show ?thesis by simp
    qed
  qed
qed

lemma sentence_at_nonempty: "sentence_at s = Some (mt, r) \<Longrightarrow> mt \<noteq> []"
  by (auto simp: sentence_at_def split: list.splits if_splits)

lemma find_match_sentence_append:
  assumes t: "no_terminal t"
  shows "find_match False sentence_rx ctx (s @ t)
     = (case find_match False sentence_rx ctx s of None \<Rightarrow> None
        | Some (pre, mt, cs, rest') \<Rightarrow> Some (pre, mt, cs, rest' @ t))"
proof (induction s arbitrary: ctx)
  case Nil
  have "find_match False sentence_rx ctx t = None"
  proof (cases "find_match False sentence_rx ctx t")
    case None
    then show ?thesis .
  next
    case (Some a)
    then obtain pre mt cs rest' where f: "find_match False sentence_rx ctx t = Some (pre, mt, cs, rest')"
      by (cases a) auto
    from find_match_shape[OF f] have s: "t = pre @ mt @ rest'" and "shape False sentence_rx mt [] cs"
      by auto
    from sentence_shape_terminal[OF this(2)] have "\<not> no_terminal mt" .
    with s t show ?thesis by (auto simp: no_terminal_def)
  qed
  moreover have "find_match False sentence_rx ctx [] = None"
    by (simp add: match_at_sentence sentence_at_def)
  ultimately show ?case by simp
next
  case (Cons x xs)
  show ?case
  proof (cases "sentence_at (x # xs)")
    case None
    with sentence_at_append[OF t, of "x # xs"] have "sentence_at (x # xs @ t) = None" by simp
    with None show ?thesis
      by (simp add: match_at_sentence Cons.IH split: option.splits)
  next
    case (Some a)
    obtain mt r where a: "a = (mt, r)" by (cases a)
    with Some sentence_at_append[OF t, of "x # xs"] have "sentence_at (x # xs @ t) = Some (mt, r @ t)"
      by simp
    with Some a show ?thesis by (simp add: match_at_sentence)
  qed
qed

lemma find_match_sentence_nonempty:
  "find_match False sentence_rx ctx s = Some (pre, mt, cs, rest') \<Longrightarrow> mt \<noteq> []"
proof (induction s arbitrary: ctx pre)
  case Nil
  then show ?case by (simp add: match_at_sentence sentence_at_def)
next
  case (Cons x xs)
  show ?case
  proof (cases "sentence_at (x # xs)")
    case None
    with Cons.prems obtain pre' where "find_match False sentence_rx (x # ctx) xs = Some (pre', mt, cs, rest')"
      by (auto simp: match_at_sentence split: option.splits)
    from Cons.IH[OF this] show ?thesis .
  next
    case (Some a)
    obtain w r where a: "a = (w, r)" by (cases a)
    with Some Cons.prems have "mt = w" by (simp add: match_at_sentence)
    with sentence_at_nonempty Some a show ?thesis by blast
  qed
qed

lemma scan_sentence_append:
  assumes t: "no_terminal t"
  shows "scan False sentence_rx ctx (s @ t)
     = (case scan False sentence_rx ctx s of (ms, rm) \<Rightarrow> (ms, rm @ t))"
proof (induction "length s" arbitrary: s ctx rule: less_induct)
  case less
  show ?case
  proof (cases "find_match False sentence_rx ctx s")
    case None
    then have l: "find_match False sentence_rx ctx (s @ t) = None"
      by (simp add: find_match_sentence_append[OF t])
    have "scan False sentence_rx ctx (s @ t) = ([], s @ t)"
      by (subst scan.simps) (simp add: l)
    moreover have "scan False sentence_rx ctx s = ([], s)"
      by (subst scan.simps) (simp add: None)
    ultimately show ?thesis by simp
  next
    case (Some a)
    then obtain pre mt cs rest' where f: "find_match False sentence_rx ctx s = Some (pre, mt, cs, rest')"
      by (cases a) auto
    then have l: "find_match False sentence_rx ctx (s @ t) = Some (pre, mt, cs, rest' @ t)"
      by (simp add: find_match_sentence_append[OF t])
    from find_match_sentence_nonempty[OF f] have mt: "mt \<noteq> []" .
    from find_match_sound[OF f] mt have "length rest' < length s" by simp
    from less[OF this] have ih: "scan False sentence_rx (rev mt @ rev pre @ ctx) (rest' @ t)
        = (case scan False sentence_rx (rev mt @ rev pre @ ctx) rest' of (ms, rm) \<Rightarrow> (ms, rm @ t))" .
    have "scan False sentence_rx ctx (s @ t)
        = (case scan False sentence_rx (rev mt @ rev pre @ ctx) (rest' @ t) of
             (ms, rm) \<Rightarrow> ((pre, mt, cs) # ms, rm))"
      by (subst scan.simps) (simp add: l mt)
    moreover have "scan False sentence_rx ctx s
        = (case scan False sentence_rx (rev mt @ rev pre @ ctx) rest' of
             (ms, rm) \<Rightarrow> ((pre, mt, cs) # ms, rm))"
      by (subst scan.simps) (simp add: f mt)
    ultimately show ?thesis by (simp add: ih split: prod.splits)
  qed
qed

lemma match_all_sentence_append:
  "no_terminal t \<Longrightarrow> match_all False sentence_rx (s @ t) = match_all False sentence_rx s"
  by (simp add: match_all_def scan_sentence_append split: prod.splits)

lemma splitIntoSentences_append:
  assumes t: "no_terminal t"
  shows "splitIntoSentences (s @ t) e = splitIntoSentences s e"
proof (cases "s = []")
  case True
  with splitIntoSentences_no_terminal[OF t] show ?thesis by (simp add: splitIntoSentences_def)
next
  case False
  then show ?thesis by (simp add: splitIntoSentences_def match_all_sentence_append[OF t])
qed

lemma processDocument_append:
  assumes t: "no_terminal t" and ty: "ty \<noteq> FullPaper"
  shows "map edited (sections (fst (processDocument (s @ t) ty e)))
       = map edited (sections (fst (processDocument s ty e)))"
  using ty
  by (simp add: processDocument_def process_section_def new_section_def collect_sections_single
      collect_section_def
      collectChanges_def splitIntoSentences_append[OF t] Let_def split: prod.splits)

text \<open>
  Claim C4.  A section of the processed document whose content has none of the characters
  \<^verbatim>\<open>.\<close>, \<^verbatim>\<open>!\<close> and \<^verbatim>\<open>?\<close> has the empty string as its edited text: no sentence is found in
  it, and its whole content is missing from the edited output.  In the same way a text \<open>t\<close>
  without these characters at the end of a text \<open>s\<close> is lost: \<^verbatim>\<open>splitIntoSentences\<close>
  finds in \<open>s @ t\<close> the sentences of \<open>s\<close>, and a document that is processed as one section
  has the edited text of \<open>s\<close>.
\<close>

theorem no_terminal_punctuation_empty_edit:
  "(sec \<in> set (sections (fst (processDocument doc ty e))) \<longrightarrow> no_terminal (content sec)
      \<longrightarrow> edited sec = Some [])
   \<and> (no_terminal t \<longrightarrow> splitIntoSentences (s @ t) e = splitIntoSentences s e)
   \<and> (no_terminal t \<longrightarrow> ty' \<noteq> FullPaper
      \<longrightarrow> map edited (sections (fst (processDocument (s @ t) ty' e)))
        = map edited (sections (fst (processDocument s ty' e))))"
proof (intro conjI impI)
  assume sec: "sec \<in> set (sections (fst (processDocument doc ty e)))"
    and nt: "no_terminal (content sec)"
  define e0 where "e0 = clearAllChanges e"
  define secs where "secs = (if ty = FullPaper then extractSections doc else [new_section ''Content'' doc])"
  obtain runs e1 where r: "map_state process_section secs e0 = (runs, e1)"
    by (cases "map_state process_section secs e0")
  obtain processed e2 where c: "collect_sections runs e1 = (processed, e2)"
    by (cases "collect_sections runs e1")
  from r c have "sections (fst (processDocument doc ty e)) = processed"
    by (simp add: processDocument_def e0_def secs_def Let_def)
  with sec have "sec \<in> set processed" by simp
  with collect_sections_edited[OF c] obtain run where
    run: "run \<in> set runs" "content sec = content (fst run)" "edited sec = Some (join '' '' (snd run))"
    by blast
  with process_sections_runs[OF r] nt have "snd run = []" by auto
  with run show "edited sec = Some []" by simp
next
  assume "no_terminal t"
  then show "splitIntoSentences (s @ t) e = splitIntoSentences s e"
    by (rule splitIntoSentences_append)
next
  assume "no_terminal t" and "ty' \<noteq> FullPaper"
  then show "map edited (sections (fst (processDocument (s @ t) ty' e)))
        = map edited (sections (fst (processDocument s ty' e)))"
    by (rule processDocument_append)
qed

theorem no_terminal_punctuation_empty_edit_witness:
  "\<lparr>title = ''A'', content = ''hello world'', original = Some ''hello world'', edited = Some [],
      changes = Some []\<rparr>
     \<in> set (sections (fst (processDocument
          (''# A'' @ [CHR 0x0A] @ ''hello world'' @ [CHR 0x0A] @ ''# B'' @ [CHR 0x0A] @ ''Bye now.'')
          FullPaper \<lparr>clarityRules = [], styleRules = [], structureRules = []\<rparr>)))
   \<and> no_terminal ''hello world''
   \<and> no_terminal '' and more''
   \<and> splitIntoSentences (''Bye now.'' @ '' and more'')
        \<lparr>clarityRules = [], styleRules = [], structureRules = []\<rparr>
      = ([''Bye now.''], \<lparr>clarityRules = [], styleRules = [], structureRules = []\<rparr>)
   \<and> Paragraph \<noteq> FullPaper
   \<and> map edited (sections (fst (processDocument (''Bye now.'' @ '' and more'') Paragraph
        \<lparr>clarityRules = [], styleRules = [], structureRules = []\<rparr>)))
      = [Some ''Bye now.'']"
proof -
  let ?e = "\<lparr>clarityRules = [], styleRules = [], structureRules = []\<rparr>"
  let ?sec = "\<lparr>title = ''A'', content = ''hello world'', original = Some ''hello world'',
      edited = Some [], changes = Some []\<rparr>"
  let ?doc = "''# A'' @ [CHR 0x0A] @ ''hello world'' @ [CHR 0x0A] @ ''# B'' @ [CHR 0x0A] @ ''Bye now.''"
  have m: "?sec \<in> set (sections (fst (processDocument ?doc FullPaper ?e)))"
    by code_simp
  have n: "no_terminal ''hello world''" by code_simp
  have n': "no_terminal '' and more''" by code_simp
  have sp: "splitIntoSentences ''Bye now.'' ?e = ([''Bye now.''], ?e)" by code_simp
  have pd: "map edited (sections (fst (processDocument ''Bye now.'' Paragraph ?e))) = [Some ''Bye now.'']"
    by code_simp
  have ne: "Paragraph \<noteq> FullPaper" by simp
  from no_terminal_punctuation_empty_edit[where sec = ?sec and doc = ?doc and ty = FullPaper and e = ?e
      and t = "'' and more''" and s = "''Bye now.''" and ty' = Paragraph] m n n' sp pd ne
  show ?thesis by (intro conjI) simp_all
qed


section \<open>The overview section\<close>

lemma title_has_overview_generated: "title_has ''overview'' (generateOverview secs)"
proof -
  have "includes_str (toLowerCase ''Overview'') ''overview''" by code_simp
  then show ?thesis by (simp add: title_has_def generateOverview_def Let_def)
qed

text \<open>
  Claim C8.  When a section with ``overview'' in its title is in the list,
  \<^verbatim>\<open>insertOverviewSection\<close> returns the list and the array of changes as they are.  The list
  it returns always has such a section, so a second call adds nothing to the result of a first.
\<close>

theorem insertOverviewSection_idempotent:
  "(list_ex (title_has ''overview'') secs \<longrightarrow> insertOverviewSection secs chs = (secs, chs))
   \<and> insertOverviewSection (fst (insertOverviewSection secs chs)) chs' =
       (fst (insertOverviewSection secs chs), chs')"
proof -
  have a: "insertOverviewSection ss cs = (ss, cs)" if "list_ex (title_has ''overview'') ss" for ss cs
    using that by (simp add: insertOverviewSection_def)
  have b: "list_ex (title_has ''overview'') (fst (insertOverviewSection secs chs))"
    by (auto simp: insertOverviewSection_def Let_def splice_in_def list_ex_iff
        title_has_overview_generated)
  from a[OF b] a show ?thesis by blast
qed

theorem insertOverviewSection_idempotent_witness:
  "list_ex (title_has ''overview'') [new_section ''Introduction'' ''x'', new_section ''System Overview'' ''y'']
   \<and> insertOverviewSection [new_section ''Introduction'' ''x'', new_section ''System Overview'' ''y''] []
       = ([new_section ''Introduction'' ''x'', new_section ''System Overview'' ''y''], [])
   \<and> length (fst (insertOverviewSection [new_section ''Introduction'' ''x'', new_section ''Methods'' ''y''] [])) = 3
   \<and> insertOverviewSection (fst (insertOverviewSection [new_section ''Introduction'' ''x'', new_section ''Methods'' ''y''] [])) []
       = (fst (insertOverviewSection [new_section ''Introduction'' ''x'', new_section ''Methods'' ''y''] []), [])"
proof -
  have h: "list_ex (title_has ''overview'') [new_section ''Introduction'' ''x'', new_section ''System Overview'' ''y'']"
    by code_simp
  have l: "length (fst (insertOverviewSection [new_section ''Introduction'' ''x'', new_section ''Methods'' ''y''] [])) = 3"
    by code_simp
  have a: "insertOverviewSection [new_section ''Introduction'' ''x'', new_section ''System Overview'' ''y''] []
       = ([new_section ''Introduction'' ''x'', new_section ''System Overview'' ''y''], [])"
    using insertOverviewSection_idempotent[of
        "[new_section ''Introduction'' ''x'', new_section ''System Overview'' ''y'']" "[]" "[]"] h
    by blast
  have b: "insertOverviewSection (fst (insertOverviewSection [new_section ''Introduction'' ''x'', new_section ''Methods'' ''y''] [])) []
       = (fst (insertOverviewSection [new_section ''Introduction'' ''x'', new_section ''Methods'' ''y''] []), [])"
    using insertOverviewSection_idempotent[of
        "[new_section ''Introduction'' ''x'', new_section ''Methods'' ''y'']" "[]" "[]"]
    by blast
  from h a l b show ?thesis by (intro conjI)
qed


section \<open>The readability scores\<close>

lemma clamp_score_bounds: "0 \<le> clamp_score x \<and> clamp_score x \<le> 100"
  by (simp add: clamp_score_def)

lemma is_space_no_terminal: "list_all is_space s \<Longrightarrow> no_terminal s"
proof -
  have "c \<noteq> CHR ''.'' \<and> c \<noteq> CHR ''!'' \<and> c \<noteq> CHR ''?''" if "is_space c" for c
    using that by (auto simp: is_space_def)
  then show "list_all is_space s \<Longrightarrow> no_terminal s"
    by (auto simp: no_terminal_def list_all_iff)
qed

text \<open>
  Claim C9.  Both readability scores lie between 0 and 100, and they are 0 for the empty text,
  for a text without a character that ends a sentence, and for a text without words.
\<close>

theorem readability_clamped:
  "0 \<le> calculateReadability text \<and> calculateReadability text \<le> 100
   \<and> 0 \<le> calculateReadabilityScore text \<and> calculateReadabilityScore text \<le> 100
   \<and> calculateReadability [] = 0 \<and> calculateReadabilityScore [] = 0
   \<and> (no_terminal text \<or> list_all is_space text \<longrightarrow>
        calculateReadability text = 0 \<and> calculateReadabilityScore text = 0)
   \<and> (countWords text = 0 \<longrightarrow> calculateReadabilityScore text = 0)"
proof -
  have b1: "0 \<le> calculateReadability t \<and> calculateReadability t \<le> 100" for t
    using clamp_score_bounds by (simp add: calculateReadability_def Let_def)
  have b2: "0 \<le> calculateReadabilityScore t \<and> calculateReadabilityScore t \<le> 100" for t
    using clamp_score_bounds by (simp add: calculateReadabilityScore_def Let_def)
  have z: "calculateReadability t = 0 \<and> calculateReadabilityScore t = 0" if "no_terminal t" for t
    using that
    by (simp add: calculateReadability_def calculateReadabilityScore_def Let_def
        match_all_no_match no_terminal_no_sentence)
  have e: "no_terminal []" by (simp add: no_terminal_def)
  have w: "calculateReadabilityScore t = 0" if "countWords t = 0" for t
    using that by (simp add: calculateReadabilityScore_def countWords_def Let_def)
  from b1 b2 z[OF e] z is_space_no_terminal w show ?thesis by blast
qed

theorem readability_clamped_witness:
  "no_terminal ''hello world'' \<and> calculateReadability ''hello world'' = 0
   \<and> calculateReadabilityScore ''hello world'' = 0
   \<and> list_all is_space ''   '' \<and> countWords ''   '' = 0
   \<and> calculateReadability ''   '' = 0 \<and> calculateReadabilityScore ''   '' = 0
   \<and> calculateReadability ''The cat sat. The dog ran!'' = 100
   \<and> calculateReadability ''Incomprehensibilities notwithstanding internationalization.'' = 0"
proof -
  have h1: "no_terminal ''hello world''" by code_simp
  have h2: "list_all is_space ''   ''" by code_simp
  have h3: "countWords ''   '' = 0" by code_simp
  have v1: "calculateReadability ''The cat sat. The dog ran!'' = 100" by code_simp
  have v2: "calculateReadability ''Incomprehensibilities notwithstanding internationalization.'' = 0"
    by code_simp
  from readability_clamped[of "''hello world''"] readability_clamped[of "''   ''"] h1 h2 h3 v1 v2
  show ?thesis by simp
qed


section \<open>An abstract that passes and is rewritten all the same\<close>

lemma abstract_example_validation:
  "validateAbstract abstract_example [] =
     (\<lparr>valid = True, issues = None,
       fixedText = ''this research problem approach result'' @ concat (replicate 95 '' a''),
       result_changes = []\<rparr>, [])"
  by code_simp

text \<open>
  Claim C10.  There is an abstract with the phrase ``This paper'' and none of the lower-case
  phrases of the independence check that \<^verbatim>\<open>validateAbstract\<close> finds valid, with no issue
  and no change recorded, and whose fixed text is not the abstract: the check compares with
  the case as it is, the rewrite ignores it.  The fixed text is the abstract with every
  match of \<^verbatim>\<open>/this paper/gi\<close> replaced by ``this research'', which here is the abstract
  with ``this research'' for the ``This paper'' at its start.
\<close>

theorem valid_abstract_rewritten:
  "\<exists>text. includes_str text ''This paper'' \<and> \<not> includes_str text ''this paper''
     \<and> \<not> includes_str text ''we present'' \<and> \<not> includes_str text ''this work''
     \<and> valid (fst (validateAbstract text [])) \<and> issues (fst (validateAbstract text [])) = None
     \<and> validateAbstract text []
         = (\<lparr>valid = True, issues = None,
              fixedText = replace_all True (Lit ''this paper'') (\<lambda>mt cs. ''this research'') text,
              result_changes = []\<rparr>, [])
     \<and> take 10 text = ''This paper''
     \<and> fixedText (fst (validateAbstract text [])) = ''this research'' @ drop 10 text
     \<and> fixedText (fst (validateAbstract text [])) \<noteq> text"
proof (intro exI[of _ abstract_example] conjI)
  have r: "replace_all True (Lit ''this paper'') (\<lambda>mt cs. ''this research'') abstract_example
      = ''this research problem approach result'' @ concat (replicate 95 '' a'')"
    by code_simp
  have d: "''this research'' @ drop 10 abstract_example
      = ''this research problem approach result'' @ concat (replicate 95 '' a'')"
    by (simp add: abstract_example_def)
  show "includes_str abstract_example ''This paper''" by code_simp
  show "\<not> includes_str abstract_example ''this paper''" by code_simp
  show "\<not> includes_str abstract_example ''we present''" by code_simp
  show "\<not> includes_str abstract_example ''this work''" by code_simp
  show "valid (fst (validateAbstract abstract_example []))" by (simp add: abstract_example_validation)
  show "issues (fst (validateAbstract abstract_example [])) = None"
    by (simp add: abstract_example_validation)
  show "validateAbstract abstract_example []
         = (\<lparr>valid = True, issues = None,
              fixedText = replace_all True (Lit ''this paper'') (\<lambda>mt cs. ''this research'') abstract_example,
              result_changes = []\<rparr>, [])"
    unfolding r by (rule abstract_example_validation)
  show "take 10 abstract_example = ''This paper''" by (simp add: abstract_example_def)
  show "fixedText (fst (validateAbstract abstract_example [])) = ''this research'' @ drop 10 abstract_example"
    unfolding d by (simp add: abstract_example_validation)
  have "fixedText (fst (validateAbstract abstract_example [])) =
      ''this research problem approach result'' @ concat (replicate 95 '' a'')"
    by (simp add: abstract_example_validation)
  moreover have "''this research problem approach result'' @ concat (replicate 95 '' a'') \<noteq> abstract_example"
    by (simp add: abstract_example_def)
  ultimately show "fixedText (fst (validateAbstract abstract_example [])) \<noteq> abstract_example"
    by simp
qed


section \<open>The example of the documentation\<close>

lemma end_to_end_processDocument:
  "processDocument
     ''The system was designed by our team. It should be noted that the results will be evaluated.''
     SectionDoc \<lparr>clarityRules = [], styleRules = [], structureRules = []\<rparr> =
   (\<lparr>doc_type = SectionDoc,
     sections = [\<lparr>title = ''Content'',
        content = ''The system was designed by our team. It should be noted that the results will be evaluated.'',
        original = Some ''The system was designed by our team. It should be noted that the results will be evaluated.'',
        edited = Some ''The our team design system. the results is evaluated.'',
        changes = Some
          [\<lparr>rule = ''Passive Voice'', type = Clarity,
              before = ''The system was designed by our team.'',
              after = ''The our team design system.'',
              reason = ''Converted passive voice to active voice for clearer, more direct writing''\<rparr>,
           \<lparr>rule = ''Forbidden Vocabulary'', type = Vocabulary,
              before = ''It should be noted that the results will be evaluated.'',
              after = '' the results will be evaluated.'',
              reason = ''Removed forbidden academic jargon and redundant phrases''\<rparr>,
           \<lparr>rule = ''Tense Correction'', type = Style,
              before = '' the results will be evaluated.'',
              after = '' the results is evaluated.'',
              reason = ''Converted future tense to present tense for academic writing''\<rparr>]\<rparr>],
     allChanges =
          [\<lparr>rule = ''Passive Voice'', type = Clarity,
              before = ''The system was designed by our team.'',
              after = ''The our team design system.'',
              reason = ''Converted passive voice to active voice for clearer, more direct writing''\<rparr>,
           \<lparr>rule = ''Forbidden Vocabulary'', type = Vocabulary,
              before = ''It should be noted that the results will be evaluated.'',
              after = '' the results will be evaluated.'',
              reason = ''Removed forbidden academic jargon and redundant phrases''\<rparr>,
           \<lparr>rule = ''Tense Correction'', type = Style,
              before = '' the results will be evaluated.'',
              after = '' the results is evaluated.'',
              reason = ''Converted future tense to present tense for academic writing''\<rparr>]\<rparr>,
    \<lparr>clarityRules = [], styleRules = [], structureRules = []\<rparr>)"
  by code_simp

text \<open>
  Claim C1.  On the example of the documentation the processor records three changes, of the
  categories clarity, vocabulary and style, as the claim says.  The texts are not the ones
  of the claim: the passive rule turns the first sentence into ``The our team design system.''
  (the words before the subject stay, the actor is not capitalised, the verb loses its ending),
  the vocabulary rule leaves the space that followed the phrase it removes, and the tense rule
  turns ``will be'' into ``is''.
\<close>

theorem end_to_end_example:
  "map edited (sections (fst (processDocument
      ''The system was designed by our team. It should be noted that the results will be evaluated.''
      SectionDoc \<lparr>clarityRules = [], styleRules = [], structureRules = []\<rparr>)))
     = [Some ''The our team design system. the results is evaluated.'']
   \<and> map (\<lambda>c. (rule c, type c, before c, after c)) (allChanges (fst (processDocument
      ''The system was designed by our team. It should be noted that the results will be evaluated.''
      SectionDoc \<lparr>clarityRules = [], styleRules = [], structureRules = []\<rparr>)))
     = [(''Passive Voice'', Clarity, ''The system was designed by our team.'',
           ''The our team design system.''),
        (''Forbidden Vocabulary'', Vocabulary, ''It should be noted that the results will be evaluated.'',
           '' the results will be evaluated.''),
        (''Tense Correction'', Style, '' the results will be evaluated.'',
           '' the results is evaluated.'')]"
  by (simp add: end_to_end_processDocument)


section \<open>Changes and the sections they belong to\<close>

lemma processDocument_two_sections:
  "map (\<lambda>s. (title s, edited s, map (\<lambda>c. (rule c, before c)) (changes_or_empty s)))
     (sections (fst (processDocument
        (''# Intro'' @ [CHR 0x0A] @ ''We utilize things.'' @ [CHR 0x0A]
           @ ''# Methods'' @ [CHR 0x0A] @ ''We utilize stuff.'')
        FullPaper \<lparr>clarityRules = [], styleRules = [], structureRules = []\<rparr>)))
   = [(''Intro'', Some ''We use things.'',
        [(''Simplified Language'', ''We utilize things.''),
         (''Simplified Language'', ''We utilize stuff.'')]),
      (''Methods'', Some ''We use stuff.'', [])]"
  by code_simp

lemma editDocument_structure_changes:
  "(let r = editDocument
        (''# Abstract'' @ [CHR 0x0A] @ ''We solve a problem.'' @ [CHR 0x0A]
           @ ''# Introduction'' @ [CHR 0x0A] @ ''Clearly this is a problem.'')
        FullPaper
    in (map (\<lambda>s. (title s, map rule (changes_or_empty s))) (edit_sections r), edit_changes r))
   = ([(''Abstract'', [''Overview Section'', ''Abstract Structure'']),
       (''Overview'', []),
       (''Introduction'', [''Overview Section'', ''Abstract Structure'', ''Remove Obvious Statements''])],
      [])"
  by code_simp

text \<open>
  Claim C3.  In a paper of two sections the change made in the second section is attached to
  the first, and the second has none: the changes are collected after the sentences of all
  the sections have been processed, and the first collection takes them all; both sections
  have a sentence, so the first section is the first to collect.  In
  \<^verbatim>\<open>editDocument\<close> the array of the structure rules is never reset: the introduction gets
  the changes of the overview and of the abstract with its own, and none of the three is in
  the list of changes of the document.
\<close>

theorem changes_leak_between_sections:
  "map (\<lambda>s. (title s, edited s, map (\<lambda>c. (rule c, before c)) (changes_or_empty s)))
     (sections (fst (processDocument
        (''# Intro'' @ [CHR 0x0A] @ ''We utilize things.'' @ [CHR 0x0A]
           @ ''# Methods'' @ [CHR 0x0A] @ ''We utilize stuff.'')
        FullPaper \<lparr>clarityRules = [], styleRules = [], structureRules = []\<rparr>)))
   = [(''Intro'', Some ''We use things.'',
        [(''Simplified Language'', ''We utilize things.''),
         (''Simplified Language'', ''We utilize stuff.'')]),
      (''Methods'', Some ''We use stuff.'', [])]
   \<and> (let r = editDocument
        (''# Abstract'' @ [CHR 0x0A] @ ''We solve a problem.'' @ [CHR 0x0A]
           @ ''# Introduction'' @ [CHR 0x0A] @ ''Clearly this is a problem.'')
        FullPaper
    in (map (\<lambda>s. (title s, map rule (changes_or_empty s))) (edit_sections r), edit_changes r))
   = ([(''Abstract'', [''Overview Section'', ''Abstract Structure'']),
       (''Overview'', []),
       (''Introduction'', [''Overview Section'', ''Abstract Structure'', ''Remove Obvious Statements''])],
      [])"
  using processDocument_two_sections editDocument_structure_changes by (intro conjI)


section \<open>The length limit of the abstract\<close>

lemma abstract_template_words: "length (split_ws abstract_template) = 25"
  by code_simp

lemma validateAbstract_not_selfContained:
  "\<not> hasAllComponents text [''problem'', ''approach'', ''result''] \<Longrightarrow>
     fixedText (fst (validateAbstract text chs)) = expandAbstract abstract_template"
  by (simp add: validateAbstract_def restructureAbstract_def Let_def abstract_template_words
      split: prod.splits)

lemma validateAbstract_selfContained_long:
  "hasAllComponents text [''problem'', ''approach'', ''result''] \<Longrightarrow>
   length (split_ws (rewrite_self_references text)) > 250 \<Longrightarrow>
     fixedText (fst (validateAbstract text chs))
       = join '' '' (take 250 (split_ws (rewrite_self_references text))) @ ''.''"
  by (simp add: validateAbstract_def restructureAbstract_def Let_def split: prod.splits)

lemma rewrite_self_references_none:
  "\<not> test True (Lit ''this paper'') text \<Longrightarrow> \<not> test True (Lit ''we present'') text \<Longrightarrow>
   \<not> test True (Lit ''this work'') text \<Longrightarrow> rewrite_self_references text = text"
  by (simp add: rewrite_self_references_def replace_all_no_match)

lemma abstract_300_plain_words: "length (split_ws abstract_300_plain) = 300"
  by code_simp

lemma abstract_300_plain_components:
  "\<not> hasAllComponents abstract_300_plain [''problem'', ''approach'', ''result'']"
  by code_simp

lemma abstract_300_plain_first_250:
  "join '' '' (take 250 (split_ws abstract_300_plain)) @ ''.'' = concat (replicate 249 ''a '') @ ''a.''"
  by code_simp

lemma template_not_first_250:
  "expandAbstract abstract_template \<noteq> concat (replicate 249 ''a '') @ ''a.''"
  by code_simp

text \<open>
  Claim C5, as stated, fails: an abstract of 300 words that names no problem, approach or
  result is replaced by the template and the expansion sentence, not cut to its first 250
  words.
\<close>

theorem validateAbstract_300_counterexample:
  "length (split_ws abstract_300_plain) = 300
   \<and> fixedText (fst (validateAbstract abstract_300_plain []))
       \<noteq> join '' '' (take 250 (split_ws abstract_300_plain)) @ ''.''"
  using abstract_300_plain_words abstract_300_plain_first_250 template_not_first_250
    validateAbstract_not_selfContained[OF abstract_300_plain_components, of "[]"]
  by simp

text \<open>
  Claim C5, amended.  When the abstract names a problem, an approach and a result, and the text
  with the self-referential phrases rewritten has more than 250 words, the fixed text is the
  first 250 words of the rewritten text, joined by single spaces, and a period.  When the
  abstract does not name all three, the fixed text is the template with the expansion
  sentence, whatever the length.  Without a self-referential phrase the rewritten text is the
  abstract itself.
\<close>

theorem validateAbstract_truncates:
  "(hasAllComponents text [''problem'', ''approach'', ''result'']
      \<and> length (split_ws (rewrite_self_references text)) > 250 \<longrightarrow>
      fixedText (fst (validateAbstract text chs))
        = join '' '' (take 250 (split_ws (rewrite_self_references text))) @ ''.'')
   \<and> (\<not> hasAllComponents text [''problem'', ''approach'', ''result''] \<longrightarrow>
      fixedText (fst (validateAbstract text chs)) = expandAbstract abstract_template)
   \<and> (\<not> test True (Lit ''this paper'') text \<and> \<not> test True (Lit ''we present'') text
      \<and> \<not> test True (Lit ''this work'') text \<longrightarrow> rewrite_self_references text = text)"
  using rewrite_self_references_none validateAbstract_not_selfContained
    validateAbstract_selfContained_long by blast

theorem validateAbstract_truncates_witness:
  "hasAllComponents abstract_300 [''problem'', ''approach'', ''result'']
   \<and> length (split_ws abstract_300) = 300
   \<and> rewrite_self_references abstract_300 = abstract_300
   \<and> fixedText (fst (validateAbstract abstract_300 []))
        = ''problem approach result'' @ concat (replicate 247 '' a'') @ ''.''
   \<and> \<not> hasAllComponents abstract_300_plain [''problem'', ''approach'', ''result'']
   \<and> fixedText (fst (validateAbstract abstract_300_plain [])) = expandAbstract abstract_template"
proof -
  have h1: "hasAllComponents abstract_300 [''problem'', ''approach'', ''result'']" by code_simp
  have h2: "\<not> test True (Lit ''this paper'') abstract_300" by code_simp
  have h3: "\<not> test True (Lit ''we present'') abstract_300" by code_simp
  have h4: "\<not> test True (Lit ''this work'') abstract_300" by code_simp
  have h5: "length (split_ws abstract_300) = 300" by code_simp
  have h6: "join '' '' (take 250 (split_ws abstract_300)) @ ''.''
      = ''problem approach result'' @ concat (replicate 247 '' a'') @ ''.''" by code_simp
  note h7 = abstract_300_plain_components
  note t = validateAbstract_truncates[of abstract_300 "[]"]
  from t h2 h3 h4 have r: "rewrite_self_references abstract_300 = abstract_300" by blast
  with t h1 h5 have "fixedText (fst (validateAbstract abstract_300 []))
      = join '' '' (take 250 (split_ws abstract_300)) @ ''.''" by simp
  with h6 have f: "fixedText (fst (validateAbstract abstract_300 []))
      = ''problem approach result'' @ concat (replicate 247 '' a'') @ ''.''" by simp
  from validateAbstract_truncates[of abstract_300_plain "[]"] h7
  have g: "fixedText (fst (validateAbstract abstract_300_plain [])) = expandAbstract abstract_template"
    by blast
  from h1 h5 r f h7 g show ?thesis by (intro conjI)
qed


section \<open>Splitting long sentences\<close>

text \<open>Pieces and separators of a split make up the text.\<close>

lemma cls_ok_space: "cls_ok ci CSpace = is_space"
  by (rule ext) simp

lemma ws_runs_after_dropWhile:
  "ws_runs False (dropWhile is_space xs) = ws_runs True (dropWhile is_space xs)"
proof (cases "dropWhile is_space xs")
  case Nil
  show ?thesis unfolding Nil by simp
next
  case (Cons y ys)
  then have "\<not> is_space y" by (simp add: dropWhile_eq_Cons_conv)
  with Cons show ?thesis by simp
qed

lemma match_at_spaces:
  "match_at False (Plus CSpace) ctx rest =
     (case rest of [] \<Rightarrow> None
      | x # xs \<Rightarrow> if is_space x then Some (rev (takeWhile is_space xs) @ [x], dropWhile is_space xs, [])
                  else None)"
  by (simp add: match_at_def star_greedy_Some cls_ok_space split: list.splits)

lemma ws_runs_dropWhile: "ws_runs True (dropWhile is_space xs) = ws_runs True xs"
  by (induction xs) auto

lemma split_loop_spaces:
  "length (split_loop False (Plus CSpace) 0 ctx cur rest) = 1 + ws_runs False rest"
proof (induction rest arbitrary: ctx cur rule: length_induct)
  case (1 rest)
  show ?case
  proof (cases rest)
    case Nil
    then show ?thesis by (simp add: split_loop.simps[of _ _ _ _ _ "[]"])
  next
    case (Cons x xs)
    show ?thesis
    proof (cases "is_space x")
      case True
      have l: "length (dropWhile is_space xs) < length rest"
        using Cons by (simp add: length_dropWhile_le le_imp_less_Suc)
      have "length (split_loop False (Plus CSpace) 0 ctx cur rest)
          = 1 + length (split_loop False (Plus CSpace) 0 ((rev (takeWhile is_space xs) @ [x]) @ ctx) [] (dropWhile is_space xs))"
        using Cons True by (simp add: split_loop.simps[of _ _ _ ctx cur "x # xs"] match_at_spaces)
      also have "\<dots> = 1 + (1 + ws_runs False (dropWhile is_space xs))"
        using 1 l by simp
      also have "ws_runs False (dropWhile is_space xs) = ws_runs True (dropWhile is_space xs)"
        by (rule ws_runs_after_dropWhile)
      also have "1 + (1 + ws_runs True (dropWhile is_space xs)) = 1 + ws_runs False rest"
        using Cons True by (simp add: ws_runs_dropWhile)
      finally show ?thesis .
    next
      case False
      have "length (split_loop False (Plus CSpace) 0 ctx cur rest)
          = length (split_loop False (Plus CSpace) 0 (x # ctx) (x # cur) xs)"
        using Cons False by (simp add: split_loop.simps[of _ _ _ ctx cur "x # xs"] match_at_spaces)
      also have "\<dots> = 1 + ws_runs False xs" using 1 Cons by simp
      finally show ?thesis using Cons False by simp
    qed
  qed
qed

lemma word_count_runs: "length (split_ws s) = 1 + ws_runs False s"
  by (cases s) (simp_all add: split_ws_def split_rx_def split_loop_spaces match_at_spaces)

lemma ws_runs_append:
  "ws_runs b (s @ t) = ws_runs b s + ws_runs (if s = [] then b else is_space (last s)) t"
  by (induction s arbitrary: b) auto

lemma ws_runs_spaces_True: "list_all is_space r \<Longrightarrow> ws_runs True r = 0"
  by (induction r) auto

lemma ws_runs_spaces_le: "list_all is_space r \<Longrightarrow> ws_runs b r \<le> 1"
  by (cases r) (auto simp: ws_runs_spaces_True)

lemma ws_runs_drop_trailing:
  "ws_runs False t \<le> ws_runs False (rev (dropWhile is_space (rev t))) + 1"
proof -
  define u where "u = rev (dropWhile is_space (rev t))"
  define r where "r = rev (takeWhile is_space (rev t))"
  have t: "t = u @ r" unfolding u_def r_def
    by (metis rev_append rev_rev_ident takeWhile_dropWhile_id)
  have "list_all is_space r" by (simp add: r_def list_all_iff) (meson set_takeWhileD)
  from ws_runs_spaces_le[OF this] have le: "ws_runs (if u = [] then False else is_space (last u)) r \<le> 1" .
  have "ws_runs False t = ws_runs False u + ws_runs (if u = [] then False else is_space (last u)) r"
    by (subst t) (rule ws_runs_append)
  with le have "ws_runs False t \<le> ws_runs False u + 1" by arith
  then show ?thesis by (simp only: u_def)
qed

lemma drop_trailing_id:
  "t \<noteq> [] \<Longrightarrow> \<not> is_space (last t) \<Longrightarrow> rev (dropWhile is_space (rev t)) = t"
  by (cases "rev t") (auto simp: last_rev)

lemma trim_word_count_prefix:
  assumes "s \<noteq> []" "\<not> is_space (hd s)"
  shows "ws_runs False s \<le> ws_runs False (trim s) + 1"
proof -
  from assms have "dropWhile is_space s = s" by (cases s) auto
  then have "trim s = rev (dropWhile is_space (rev s))" by (simp add: trim_def)
  with ws_runs_drop_trailing[of s] show ?thesis by simp
qed

lemma dropWhile_last:
  "dropWhile P xs \<noteq> [] \<Longrightarrow> last (dropWhile P xs) = last xs"
  by (metis last_appendR takeWhile_dropWhile_id)

lemma is_space_upper_char: "is_space (upper_char c) = is_space c"
  by (auto simp: upper_char_def is_lower_def is_space_def Let_def)

lemma ws_runs_capitalize: "ws_runs b (capitalize s) = ws_runs b s"
  by (cases s) (simp_all add: capitalize_def is_space_upper_char)

lemma ws_runs_ensureCompleteSentence:
  "ws_runs False (ensureCompleteSentence p) = ws_runs False (trim p)"
proof -
  have "\<not> is_space CHR ''.''" by (simp add: is_space_def)
  then show ?thesis
    by (simp add: ensureCompleteSentence_def Let_def ws_runs_append ws_runs_capitalize)
qed

lemma split_loop_Nil: "split_loop ci r ng ctx cur [] = [rev cur]"
  by (simp add: split_loop.simps[of ci r ng ctx cur "[]"])

lemma split_loop_Cons:
  "split_loop ci r ng ctx cur (x # xs) =
     (case match_at ci r ctx (x # xs) of
        None \<Rightarrow> split_loop ci r ng (x # ctx) (x # cur) xs
      | Some (acc, rest', cs) \<Rightarrow>
          if acc = [] \<and> cur = [] then split_loop ci r ng (x # ctx) (x # cur) xs
          else rev cur # map (cap cs) [1..<Suc ng] @ split_loop ci r ng (acc @ ctx) [] rest')"
  by (simp add: split_loop.simps[of ci r ng ctx cur "x # xs"])

lemma split_loop_nonempty: "split_loop ci r ng ctx cur rest \<noteq> []"
proof (induction ci r ng ctx cur rest rule: split_loop.induct)
  case (1 ci r ng ctx cur rest)
  show ?case
  proof (cases rest)
    case Nil
    then show ?thesis by (simp add: split_loop_Nil)
  next
    case (Cons x xs)
    show ?thesis
    proof (cases "match_at ci r ctx rest")
      case None
      from "1.IH"(1)[OF Cons None] Cons None show ?thesis
        by (simp add: split_loop_Cons)
    next
      case (Some a)
      obtain acc rest' cs where a: "a = (acc, rest', cs)" by (cases a)
      show ?thesis
      proof (cases "acc = [] \<and> cur = []")
        case True
        from "1.IH"(2)[OF Cons Some a[symmetric] refl True] Cons Some a True show ?thesis
          by (simp add: split_loop_Cons)
      next
        case False
        with Cons Some a show ?thesis
          by (auto simp: split_loop_Cons)
      qed
    qed
  qed
qed

lemma split_loop_one:
  "ng = 0 \<Longrightarrow> split_loop ci r ng ctx cur rest = [p] \<Longrightarrow> p = rev cur @ rest"
proof (induction ci r ng ctx cur rest rule: split_loop.induct)
  case (1 ci r ng ctx cur rest)
  show ?case
  proof (cases rest)
    case Nil
    with "1.prems" show ?thesis by (simp add: split_loop_Nil)
  next
    case (Cons x xs)
    show ?thesis
    proof (cases "match_at ci r ctx rest")
      case None
      with Cons "1.prems" have "split_loop ci r ng (x # ctx) (x # cur) xs = [p]"
        by (simp add: split_loop_Cons)
      from "1.IH"(1)[OF Cons None "1.prems"(1) this] Cons show ?thesis by simp
    next
      case (Some a)
      obtain acc rest' cs where a: "a = (acc, rest', cs)" by (cases a)
      show ?thesis
      proof (cases "acc = [] \<and> cur = []")
        case True
        with Cons Some a "1.prems" have "split_loop ci r ng (x # ctx) (x # cur) xs = [p]"
          by (simp add: split_loop_Cons)
        from "1.IH"(2)[OF Cons Some a[symmetric] refl True "1.prems"(1) this] Cons show ?thesis by simp
      next
        case False
        with Cons Some a "1.prems" have "rev cur # split_loop ci r ng (acc @ ctx) [] rest' = [p]"
          by (simp add: split_loop_Cons)
        with split_loop_nonempty[of ci r ng "acc @ ctx" "[]" rest'] show ?thesis by simp
      qed
    qed
  qed
qed

lemma split_loop_two:
  "ng = 0 \<Longrightarrow> split_loop ci r ng ctx cur rest = [p0, p1] \<Longrightarrow> \<exists>sep. rev cur @ rest = p0 @ sep @ p1"
proof (induction ci r ng ctx cur rest rule: split_loop.induct)
  case (1 ci r ng ctx cur rest)
  show ?case
  proof (cases rest)
    case Nil
    with "1.prems" show ?thesis by (simp add: split_loop_Nil)
  next
    case (Cons x xs)
    show ?thesis
    proof (cases "match_at ci r ctx rest")
      case None
      with Cons "1.prems" have "split_loop ci r ng (x # ctx) (x # cur) xs = [p0, p1]"
        by (simp add: split_loop_Cons)
      from "1.IH"(1)[OF Cons None "1.prems"(1) this] Cons show ?thesis by simp
    next
      case (Some a)
      obtain acc rest' cs where a: "a = (acc, rest', cs)" by (cases a)
      show ?thesis
      proof (cases "acc = [] \<and> cur = []")
        case True
        with Cons Some a "1.prems" have "split_loop ci r ng (x # ctx) (x # cur) xs = [p0, p1]"
          by (simp add: split_loop_Cons)
        from "1.IH"(2)[OF Cons Some a[symmetric] refl True "1.prems"(1) this] Cons show ?thesis by simp
      next
        case False
        with Cons Some a "1.prems" have "rev cur # split_loop ci r ng (acc @ ctx) [] rest' = [p0, p1]"
          by (simp add: split_loop_Cons)
        then have p0: "p0 = rev cur" and "split_loop ci r ng (acc @ ctx) [] rest' = [p1]" by simp_all
        from split_loop_one[OF "1.prems"(1) this(2)] have p1: "p1 = rest'" by simp
        from match_at_sound[OF Some[unfolded a]] have "rest = rev acc @ rest'" .
        with p0 p1 show ?thesis by auto
      qed
    qed
  qed
qed

lemma split_rx_two:
  "split_rx ci r 0 s = [p0, p1] \<Longrightarrow> \<exists>sep. s = p0 @ sep @ p1"
proof -
  assume a: "split_rx ci r 0 s = [p0, p1]"
  then have "s \<noteq> []" by (auto simp: split_rx_def split: option.splits)
  with a have "split_loop ci r 0 [] [] s = [p0, p1]" by (simp add: split_rx_def)
  from split_loop_two[OF refl this] show ?thesis by simp
qed

lemma trim_ends:
  assumes "trim s \<noteq> []"
  shows "\<not> is_space (hd (trim s)) \<and> \<not> is_space (last (trim s))"
proof -
  define t where "t = dropWhile is_space s"
  define x where "x = dropWhile is_space (rev t)"
  have tr: "trim s = rev x" by (simp add: trim_def t_def x_def)
  with assms have xn: "x \<noteq> []" by simp
  then have hx: "\<not> is_space (hd x)" unfolding x_def by (rule hd_dropWhile)
  from xn have tn: "t \<noteq> []" by (auto simp: x_def)
  then have ht: "\<not> is_space (hd t)" unfolding t_def by (rule hd_dropWhile)
  from xn have "last x = last (rev t)" unfolding x_def by (rule dropWhile_last)
  with tn have lx: "last x = hd t" by (simp add: last_rev)
  from xn tr have "hd (trim s) = last x" "last (trim s) = hd x"
    by (simp_all add: hd_rev last_rev)
  with hx ht lx show ?thesis by simp
qed

lemma word_count_empty: "length (split_ws []) = 1"
  by (simp add: word_count_runs)

lemma fragment_words_prefix:
  assumes "s \<noteq> []" "\<not> is_space (hd s)" "s = p @ rest" "5 \<le> length (split_ws p)"
  shows "4 \<le> length (split_ws (ensureCompleteSentence p))"
proof -
  from assms(4) have "p \<noteq> []" by (auto simp: word_count_empty)
  with assms(2,3) have "\<not> is_space (hd p)" by (cases p) auto
  from trim_word_count_prefix[OF \<open>p \<noteq> []\<close> this] assms(4) show ?thesis
    by (simp add: word_count_runs ws_runs_ensureCompleteSentence)
qed

lemma intelligentSplit_loop_cases:
  "intelligentSplit_loop conjs s = [s] \<or>
   (\<exists>ci pat p0 p1. (ci, pat) \<in> set conjs \<and> test ci pat s \<and> split_rx ci pat 0 s = [p0, p1]
      \<and> 5 \<le> length (split_ws p0) \<and> 5 \<le> length (split_ws p1)
      \<and> intelligentSplit_loop conjs s = [ensureCompleteSentence p0, ensureCompleteSentence p1])"
proof (induction conjs)
  case Nil
  then show ?case by simp
next
  case (Cons c conjs)
  obtain ci pat where c: "c = (ci, pat)" by (cases c)
  show ?case
  proof (cases "test ci pat s \<and> length (split_rx ci pat 0 s) = 2
      \<and> list_all (\<lambda>p. length (split_ws p) \<ge> 5) (split_rx ci pat 0 s)")
    case True
    then obtain p0 p1 where p: "split_rx ci pat 0 s = [p0, p1]"
      by (cases "split_rx ci pat 0 s"; cases "tl (split_rx ci pat 0 s)") auto
    with True c have "intelligentSplit_loop (c # conjs) s = [ensureCompleteSentence p0, ensureCompleteSentence p1]"
      by (simp add: Let_def)
    with True p c show ?thesis by (intro disjI2 exI[of _ ci] exI[of _ pat] exI[of _ p0] exI[of _ p1]) simp
  next
    case False
    with c have "intelligentSplit_loop (c # conjs) s = intelligentSplit_loop conjs s"
      by (auto simp: Let_def)
    with Cons.IH show ?thesis by auto
  qed
qed

lemma splitLongSentences_fold_unsplit:
  "list_all (\<lambda>sen. length (split_ws (trim sen)) \<le> 25 \<or> intelligentSplit (trim sen) = [trim sen]) sens \<Longrightarrow>
     fold splitLongSentences_step sens (acc, chs) = (acc @ map trim sens, chs)"
proof (induction sens arbitrary: acc)
  case Nil
  then show ?case by simp
next
  case (Cons sen sens)
  then have "length (split_ws (trim sen)) \<le> 25 \<or> intelligentSplit (trim sen) = [trim sen]" by simp
  then have "splitLongSentences_step sen (acc, chs) = (acc @ [trim sen], chs)"
    by (auto simp: splitLongSentences_step_def Let_def)
  with Cons show ?case by simp
qed

lemma splitLongSentences_unsplit:
  "list_all (\<lambda>sen. length (split_ws (trim sen)) \<le> 25 \<or> intelligentSplit (trim sen) = [trim sen])
     (sentences_or_text text) \<Longrightarrow>
   splitLongSentences text chs = (join '' '' (map trim (sentences_or_text text)), chs)"
  by (simp add: splitLongSentences_def splitLongSentences_fold_unsplit)

text \<open>What is left after a match of a conjunction pattern does not start with white space:
  each pattern ends in a greedy run of white space, and what the matcher returns it returns
  through the continuation that follows this run.\<close>

lemma seq_continues:
  assumes "m ci (Seq a b) ctx acc rest cs k = Some res"
  shows "\<exists>acc' rest' cs'. m ci b ctx acc' rest' cs' k = Some res"
proof -
  from assms have "m ci a ctx acc rest cs (\<lambda>acc' rest' cs'. m ci b ctx acc' rest' cs' k) = Some res"
    by simp
  from m_shape[OF this] show ?thesis by blast
qed

lemma plus_space_end:
  assumes "m ci (Seq (Plus CSpace) Eps) ctx acc rest cs (\<lambda>a r c. Some (a, r, c)) = Some (a', r', c')"
  shows "r' = [] \<or> \<not> is_space (hd r')"
proof (cases rest)
  case Nil
  with assms show ?thesis by simp
next
  case (Cons x xs)
  with assms have "r' = dropWhile is_space xs"
    by (simp add: star_greedy_Some cls_ok_space split: if_splits)
  then show ?thesis using hd_dropWhile[of is_space xs] by auto
qed

lemma star_space_end:
  assumes "m ci (Seq (Star CSpace) Eps) ctx acc rest cs (\<lambda>a r c. Some (a, r, c)) = Some (a', r', c')"
  shows "r' = [] \<or> \<not> is_space (hd r')"
proof -
  from assms have "r' = dropWhile is_space rest"
    by (simp add: star_greedy_Some cls_ok_space)
  then show ?thesis using hd_dropWhile[of is_space rest] by auto
qed

lemma conjunction_end:
  assumes c: "(ci, pat) \<in> set conjunctions"
    and ma: "match_at ci pat ctx s = Some (acc, rest', cs)"
  shows "rest' = [] \<or> \<not> is_space (hd rest')"
proof -
  from c consider w where "pat = Seq (Lit '','') (Seq (Star CSpace) (Seq (Lit w) (Seq (Plus CSpace) Eps)))"
    | "pat = Seq (Lit '';'') (Seq (Star CSpace) Eps)"
    by (auto simp: conjunctions_def seqs_def)
  then show ?thesis
  proof cases
    case 1
    with ma have "m ci (Seq (Lit '','') (Seq (Star CSpace) (Seq (Lit w) (Seq (Plus CSpace) Eps))))
        ctx [] s [] (\<lambda>a r c. Some (a, r, c)) = Some (acc, rest', cs)"
      by (simp only: match_at_def)
    from seq_continues[OF this] obtain a1 r1 c1 where
      "m ci (Seq (Star CSpace) (Seq (Lit w) (Seq (Plus CSpace) Eps))) ctx a1 r1 c1
         (\<lambda>a r c. Some (a, r, c)) = Some (acc, rest', cs)" by (elim exE)
    from seq_continues[OF this] obtain a2 r2 c2 where
      "m ci (Seq (Lit w) (Seq (Plus CSpace) Eps)) ctx a2 r2 c2
         (\<lambda>a r c. Some (a, r, c)) = Some (acc, rest', cs)" by (elim exE)
    from seq_continues[OF this] obtain a3 r3 c3 where
      "m ci (Seq (Plus CSpace) Eps) ctx a3 r3 c3
         (\<lambda>a r c. Some (a, r, c)) = Some (acc, rest', cs)" by (elim exE)
    then show ?thesis by (rule plus_space_end)
  next
    case 2
    with ma have "m ci (Seq (Lit '';'') (Seq (Star CSpace) Eps))
        ctx [] s [] (\<lambda>a r c. Some (a, r, c)) = Some (acc, rest', cs)"
      by (simp only: match_at_def)
    from seq_continues[OF this] obtain a1 r1 c1 where
      "m ci (Seq (Star CSpace) Eps) ctx a1 r1 c1
         (\<lambda>a r c. Some (a, r, c)) = Some (acc, rest', cs)" by (elim exE)
    then show ?thesis by (rule star_space_end)
  qed
qed

text \<open>The second piece of a split in two is what is left after a match of the separator.\<close>

lemma split_loop_two_match:
  "ng = 0 \<Longrightarrow> split_loop ci r ng ctx cur rest = [p0, p1] \<Longrightarrow>
     \<exists>ctx' s' acc cs. match_at ci r ctx' s' = Some (acc, p1, cs)"
proof (induction ci r ng ctx cur rest rule: split_loop.induct)
  case (1 ci r ng ctx cur rest)
  show ?case
  proof (cases rest)
    case Nil
    with "1.prems" show ?thesis by (simp add: split_loop_Nil)
  next
    case (Cons x xs)
    show ?thesis
    proof (cases "match_at ci r ctx rest")
      case None
      with Cons "1.prems" have "split_loop ci r ng (x # ctx) (x # cur) xs = [p0, p1]"
        by (simp add: split_loop_Cons)
      from "1.IH"(1)[OF Cons None "1.prems"(1) this] show ?thesis .
    next
      case (Some a)
      obtain acc rest' cs where a: "a = (acc, rest', cs)" by (cases a)
      show ?thesis
      proof (cases "acc = [] \<and> cur = []")
        case True
        with Cons Some a "1.prems" have "split_loop ci r ng (x # ctx) (x # cur) xs = [p0, p1]"
          by (simp add: split_loop_Cons)
        from "1.IH"(2)[OF Cons Some a[symmetric] refl True "1.prems"(1) this] show ?thesis .
      next
        case False
        with Cons Some a "1.prems" have "rev cur # split_loop ci r ng (acc @ ctx) [] rest' = [p0, p1]"
          by (simp add: split_loop_Cons)
        then have "split_loop ci r ng (acc @ ctx) [] rest' = [p1]" by simp
        from split_loop_one[OF "1.prems"(1) this] have "p1 = rest'" by simp
        with Some a show ?thesis by blast
      qed
    qed
  qed
qed

lemma split_rx_two_match:
  assumes "split_rx ci r 0 s = [p0, p1]"
  shows "\<exists>ctx' s' acc cs. match_at ci r ctx' s' = Some (acc, p1, cs)"
proof -
  from assms have "s \<noteq> []" by (auto simp: split_rx_def split: option.splits)
  with assms have "split_loop ci r 0 [] [] s = [p0, p1]" by (simp add: split_rx_def)
  from split_loop_two_match[OF refl this] show ?thesis .
qed

lemma trim_id:
  assumes "p \<noteq> []" "\<not> is_space (hd p)" "\<not> is_space (last p)"
  shows "trim p = p"
proof -
  from assms(1,2) have "dropWhile is_space p = p" by (cases p) auto
  with drop_trailing_id[OF assms(1,3)] show ?thesis by (simp add: trim_def)
qed

lemma intelligentSplit_split:
  assumes "intelligentSplit (trim sentence) = [f0, f1]"
  shows "\<exists>p0 sep p1. trim sentence = p0 @ sep @ p1
      \<and> f0 = ensureCompleteSentence p0 \<and> f1 = ensureCompleteSentence p1
      \<and> 5 \<le> length (split_ws p0) \<and> 5 \<le> length (split_ws p1) \<and> trim p1 = p1
      \<and> 4 \<le> length (split_ws f0) \<and> 5 \<le> length (split_ws f1)"
proof -
  define s where "s = trim sentence"
  from assms have "intelligentSplit s \<noteq> [s]" by (simp add: s_def)
  with intelligentSplit_loop_cases[of conjunctions s]
  obtain ci pat p0 p1 where c: "(ci, pat) \<in> set conjunctions"
    and sp: "split_rx ci pat 0 s = [p0, p1]"
    and w0: "5 \<le> length (split_ws p0)" and w1: "5 \<le> length (split_ws p1)"
    and i: "intelligentSplit s = [ensureCompleteSentence p0, ensureCompleteSentence p1]"
    by (auto simp: intelligentSplit_def)
  from i assms have f: "f0 = ensureCompleteSentence p0" "f1 = ensureCompleteSentence p1"
    by (simp_all add: s_def)
  from split_rx_two[OF sp] obtain sep where s: "s = p0 @ sep @ p1" by blast
  from w0 have p0: "p0 \<noteq> []" by (auto simp: word_count_empty)
  from w1 have p1: "p1 \<noteq> []" by (auto simp: word_count_empty)
  from p0 s have sn: "s \<noteq> []" by simp
  with trim_ends[of sentence] have e: "\<not> is_space (hd s)" "\<not> is_space (last s)"
    by (simp_all add: s_def)
  from fragment_words_prefix[OF sn e(1) s w0]
  have g0: "4 \<le> length (split_ws (ensureCompleteSentence p0))" .
  from split_rx_two_match[OF sp] obtain ctx' s' acc cs where
    "match_at ci pat ctx' s' = Some (acc, p1, cs)" by blast
  from conjunction_end[OF c this] p1 have h: "\<not> is_space (hd p1)" by simp
  from s p1 e(2) have l: "\<not> is_space (last p1)" by simp
  from trim_id[OF p1 h l] have t: "trim p1 = p1" .
  have "length (split_ws (ensureCompleteSentence p1)) = length (split_ws p1)"
    by (simp add: word_count_runs ws_runs_ensureCompleteSentence t)
  with w1 have g1: "5 \<le> length (split_ws (ensureCompleteSentence p1))" by simp
  from s f w0 w1 t g0 g1 show ?thesis unfolding s_def by blast
qed


text \<open>The text that \<^verbatim>\<open>splitLongSentences\<close> returns, sentence by sentence.\<close>

lemma splitLongSentences_fold_fst:
  "fst (fold splitLongSentences_step sens (acc, chs)) =
     acc @ concat (map (\<lambda>sen. if 25 < length (split_ws (trim sen)) then intelligentSplit (trim sen)
                             else [trim sen]) sens)"
proof (induction sens arbitrary: acc chs)
  case Nil
  then show ?case by simp
next
  case (Cons sen sens)
  obtain acc1 chs1 where st: "splitLongSentences_step sen (acc, chs) = (acc1, chs1)"
    by (cases "splitLongSentences_step sen (acc, chs)")
  then have "acc1 = acc @ (if 25 < length (split_ws (trim sen)) then intelligentSplit (trim sen)
                             else [trim sen])"
    by (auto simp: splitLongSentences_step_def Let_def split: if_splits)
  with Cons.IH[of acc1 chs1] st show ?case by simp
qed

lemma splitLongSentences_fst:
  "fst (splitLongSentences input chs) =
     join '' '' (concat (map (\<lambda>sen. if 25 < length (split_ws (trim sen)) then intelligentSplit (trim sen)
                                    else [trim sen]) (sentences_or_text input)))"
proof -
  obtain ps chs' where f: "fold splitLongSentences_step (sentences_or_text input) ([], chs) = (ps, chs')"
    by (cases "fold splitLongSentences_step (sentences_or_text input) ([], chs)")
  with splitLongSentences_fold_fst[of "sentences_or_text input" "[]" chs]
  show ?thesis by (simp add: splitLongSentences_def)
qed

lemma intelligentSplit_one_or_two:
  "intelligentSplit s = [s] \<or> length (intelligentSplit s) = 2"
  using intelligentSplit_loop_cases[of conjunctions s] by (auto simp: intelligentSplit_def)

text \<open>
  Claim C6 at a sentence of 28 words with a space before its only comma.  The sentence is
  split at \<^verbatim>\<open>, and\<close>.  The part before it is \<^verbatim>\<open>a b c d\<close> with the space at its end, which
  \<^verbatim>\<open>split(/\s+/)\<close> cuts into 5 pieces, the last one empty, so the test for 5 words lets it
  pass; the fragment made of it is trimmed and has 4 words.  A change is recorded for the
  split.  And a text of two short sentences with two spaces between them, in which nothing is
  split, comes back with one space.
\<close>

theorem splitLongSentences_counterexample:
  "length (split_ws long_sentence_example) = 28
   \<and> trim long_sentence_example = long_sentence_example
   \<and> split_rx True (seqs [Lit '','', Star CSpace, Lit ''and'', Plus CSpace]) 0 long_sentence_example =
        [''a b c d '', ''e1 e2 e3 e4 e5 e6 e7 e8 e9 e10 e11 e12 e13 e14 e15 e16 e17 e18 e19 e20 e21 e22.'']
   \<and> length (split_ws ''a b c d '') = 5
   \<and> length (split_ws (trim ''a b c d '')) = 4
   \<and> intelligentSplit long_sentence_example =
        [''A b c d.'', ''E1 e2 e3 e4 e5 e6 e7 e8 e9 e10 e11 e12 e13 e14 e15 e16 e17 e18 e19 e20 e21 e22.'']
   \<and> splitLongSentences long_sentence_example [] =
        (''A b c d. E1 e2 e3 e4 e5 e6 e7 e8 e9 e10 e11 e12 e13 e14 e15 e16 e17 e18 e19 e20 e21 e22.'',
         [\<lparr>rule = ''Long Sentence'', type = Clarity, before = long_sentence_example,
           after = ''A b c d. E1 e2 e3 e4 e5 e6 e7 e8 e9 e10 e11 e12 e13 e14 e15 e16 e17 e18 e19 e20 e21 e22.'',
           reason = ''Split sentence with 28 words into shorter, clearer sentences''\<rparr>])
   \<and> length (split_ws ''A b c d.'') = 4
   \<and> splitLongSentences ''Hello.  World.'' [] = (''Hello. World.'', [])"
  by code_simp

text \<open>
  Claim C6, for every input.  \<^verbatim>\<open>intelligentSplit\<close> returns the sentence alone or two
  fragments.  When it splits a trimmed sentence, as \<^verbatim>\<open>splitLongSentences\<close> passes it, the
  fragments are made of a part before and a part after a separator, each with at least 5
  words by the count \<^verbatim>\<open>split(/\s+/).length\<close> of the part as it is cut off; the part after
  the separator is trimmed already, so the second fragment has at least 5 words, and the first
  fragment has at least 4.  The text returned is made of the trimmed sentences and the
  fragments, joined by single spaces.  When each sentence of the input is short or comes back
  unsplit, it is the trimmed sentences joined by single spaces, with no change recorded; it is
  the input when the input is one trimmed sentence.
\<close>

theorem splitLongSentences_fragments:
  "(intelligentSplit (trim sentence) = [trim sentence] \<or> length (intelligentSplit (trim sentence)) = 2)
   \<and> (intelligentSplit (trim sentence) = [fa, fb] \<longrightarrow>
        (\<exists>p0 sep p1. trim sentence = p0 @ sep @ p1
           \<and> fa = ensureCompleteSentence p0 \<and> fb = ensureCompleteSentence p1
           \<and> 5 \<le> length (split_ws p0) \<and> 5 \<le> length (split_ws p1) \<and> trim p1 = p1)
        \<and> 4 \<le> length (split_ws fa) \<and> 5 \<le> length (split_ws fb))
   \<and> fst (splitLongSentences input chs) =
        join '' '' (concat (map (\<lambda>sen. if 25 < length (split_ws (trim sen))
                                       then intelligentSplit (trim sen) else [trim sen])
                              (sentences_or_text input)))
   \<and> (list_all (\<lambda>sen. length (split_ws (trim sen)) \<le> 25 \<or> intelligentSplit (trim sen) = [trim sen])
         (sentences_or_text input) \<longrightarrow>
       splitLongSentences input chs = (join '' '' (map trim (sentences_or_text input)), chs))
   \<and> (sentences_or_text input = [input] \<and> trim input = input
         \<and> (length (split_ws input) \<le> 25 \<or> intelligentSplit input = [input]) \<longrightarrow>
       splitLongSentences input chs = (input, chs))"
proof (intro conjI impI)
  show "intelligentSplit (trim sentence) = [trim sentence] \<or> length (intelligentSplit (trim sentence)) = 2"
    by (rule intelligentSplit_one_or_two)
next
  assume a: "intelligentSplit (trim sentence) = [fa, fb]"
  from intelligentSplit_split[OF a]
  show "\<exists>p0 sep p1. trim sentence = p0 @ sep @ p1
           \<and> fa = ensureCompleteSentence p0 \<and> fb = ensureCompleteSentence p1
           \<and> 5 \<le> length (split_ws p0) \<and> 5 \<le> length (split_ws p1) \<and> trim p1 = p1"
    by blast
  from intelligentSplit_split[OF a] show "4 \<le> length (split_ws fa)" by blast
  from intelligentSplit_split[OF a] show "5 \<le> length (split_ws fb)" by blast
next
  show "fst (splitLongSentences input chs) =
        join '' '' (concat (map (\<lambda>sen. if 25 < length (split_ws (trim sen))
                                       then intelligentSplit (trim sen) else [trim sen])
                              (sentences_or_text input)))"
    by (rule splitLongSentences_fst)
next
  assume "list_all (\<lambda>sen. length (split_ws (trim sen)) \<le> 25 \<or> intelligentSplit (trim sen) = [trim sen])
         (sentences_or_text input)"
  then show "splitLongSentences input chs = (join '' '' (map trim (sentences_or_text input)), chs)"
    by (rule splitLongSentences_unsplit)
next
  assume a: "sentences_or_text input = [input] \<and> trim input = input
         \<and> (length (split_ws input) \<le> 25 \<or> intelligentSplit input = [input])"
  then have "list_all (\<lambda>sen. length (split_ws (trim sen)) \<le> 25 \<or> intelligentSplit (trim sen) = [trim sen])
         (sentences_or_text input)" by simp
  from splitLongSentences_unsplit[OF this] a show "splitLongSentences input chs = (input, chs)" by simp
qed

theorem splitLongSentences_fragments_witness:
  "intelligentSplit (trim long_sentence_example) =
      [''A b c d.'', ''E1 e2 e3 e4 e5 e6 e7 e8 e9 e10 e11 e12 e13 e14 e15 e16 e17 e18 e19 e20 e21 e22.'']
   \<and> 4 \<le> length (split_ws ''A b c d.'')
   \<and> 5 \<le> length (split_ws ''E1 e2 e3 e4 e5 e6 e7 e8 e9 e10 e11 e12 e13 e14 e15 e16 e17 e18 e19 e20 e21 e22.'')
   \<and> list_all (\<lambda>sen. length (split_ws (trim sen)) \<le> 25 \<or> intelligentSplit (trim sen) = [trim sen])
      (sentences_or_text ''Hello.  World.'')
   \<and> splitLongSentences ''Hello.  World.'' [] = (''Hello. World.'', [])
   \<and> sentences_or_text ''Hello.'' = [''Hello.''] \<and> trim ''Hello.'' = ''Hello.''
   \<and> length (split_ws ''Hello.'') \<le> 25
   \<and> splitLongSentences ''Hello.'' [] = (''Hello.'', [])"
proof -
  let ?f0 = "''A b c d.''"
  let ?f1 = "''E1 e2 e3 e4 e5 e6 e7 e8 e9 e10 e11 e12 e13 e14 e15 e16 e17 e18 e19 e20 e21 e22.''"
  have h0: "intelligentSplit (trim long_sentence_example) = [?f0, ?f1]" by code_simp
  have h1: "list_all (\<lambda>sen. length (split_ws (trim sen)) \<le> 25 \<or> intelligentSplit (trim sen) = [trim sen])
      (sentences_or_text ''Hello.  World.'')" by code_simp
  have h2: "join '' '' (map trim (sentences_or_text ''Hello.  World.'')) = ''Hello. World.''"
    by code_simp
  have h3: "sentences_or_text ''Hello.'' = [''Hello.'']" by code_simp
  have h4: "trim ''Hello.'' = ''Hello.''" by code_simp
  have h5: "length (split_ws ''Hello.'') \<le> 25" by code_simp
  from splitLongSentences_fragments[where sentence = long_sentence_example and fa = ?f0 and fb = ?f1] h0
  have s: "4 \<le> length (split_ws ?f0)" "5 \<le> length (split_ws ?f1)" by blast+
  from splitLongSentences_fragments[where input = "''Hello.  World.''" and chs = "[]"] h1 h2
  have a: "splitLongSentences ''Hello.  World.'' [] = (''Hello. World.'', [])" by simp
  from splitLongSentences_fragments[where input = "''Hello.''" and chs = "[]"] h3 h4 h5
  have b: "splitLongSentences ''Hello.'' [] = (''Hello.'', [])" by blast
  from h0 s h1 a h3 h4 h5 b show ?thesis by (intro conjI)
qed


section \<open>Changed texts and recorded changes\<close>















lemma is_prefix_length: "is_prefix p s \<Longrightarrow> length p \<le> length s"
  by (induction p s rule: is_prefix.induct) auto

lemma endsWith_length: "endsWith s w \<Longrightarrow> length w \<le> length s"
  using is_prefix_length[of "rev w" "rev s"] by (simp add: endsWith_def)
































end
